theory Spec2Isabelle
  imports
    Complex_Main
    "HOL-Library.Sublist"
    "HOL-Library.Char_ord"
    "HOL-Library.List_Lexorder"
begin

section \<open>Banshee: the search orchestration engine of \<^verbatim>\<open>banshee.go\<close>\<close>

text \<open>
  Conventions of the embedding.
  \<^item> A Go \<^verbatim>\<open>string\<close> is a byte string, here \<^typ>\<open>string\<close>. White space and letter case
    are modelled on ASCII: \<^verbatim>\<open>strings.TrimSpace\<close> and \<^verbatim>\<open>strings.ToLower\<close> treat the
    multi-byte Unicode spaces and letters as well, which the model leaves untouched.
  \<^item> A Go \<^verbatim>\<open>float64\<close> of seconds (\<^verbatim>\<open>delay\<close>, \<^verbatim>\<open>dynamicDelay\<close>) is a \<^typ>\<open>real\<close>:
    the arithmetic is exact, where the machine rounds.
  \<^item> Go's \<^verbatim>\<open>int\<close> is \<^typ>\<open>int\<close>; the counters of the program stay far from 64 bits.
\<close>

subsection \<open>The \<^verbatim>\<open>strings\<close> package\<close>

definition isSpace :: "char \<Rightarrow> bool" where
  "isSpace c = (c \<in> set [CHR 0x09, CHR 0x0A, CHR 0x0B, CHR 0x0C, CHR 0x0D, CHR '' ''])"

definition TrimSpace :: "string \<Rightarrow> string" where
  "TrimSpace s = rev (dropWhile isSpace (rev (dropWhile isSpace s)))"

definition lowerChar :: "char \<Rightarrow> char" where
  "lowerChar c =
     (if CHR ''A'' \<le> c \<and> c \<le> CHR ''Z'' then char_of (of_char c + (32::nat)) else c)"

definition ToLower :: "string \<Rightarrow> string" where
  "ToLower s = map lowerChar s"

text \<open>\<^verbatim>\<open>strings.Contains(s, sub)\<close>: \<open>sub\<close> occurs in \<open>s\<close> as a contiguous block.\<close>

fun Contains :: "string \<Rightarrow> string \<Rightarrow> bool" where
  "Contains [] sub = (sub = [])"
| "Contains (c # cs) sub = (prefix sub (c # cs) \<or> Contains cs sub)"

text \<open>
  \<^verbatim>\<open>strings.Split(s, sep)\<close> for a non-empty separator: the pieces between the
  non-overlapping occurrences of \<open>sep\<close>, found from the left. The accumulator holds the
  current piece, reversed.
\<close>

function splitAcc :: "string \<Rightarrow> string \<Rightarrow> string \<Rightarrow> string list" where
  "splitAcc sep acc s =
     (if s = [] \<or> sep = [] then [rev acc @ s]
      else if prefix sep s then rev acc # splitAcc sep [] (drop (length sep) s)
      else splitAcc sep (hd s # acc) (tl s))"
  by pat_completeness auto
termination
  by (relation "measure (\<lambda>(sep, acc, s). length s)") auto

definition Split :: "string \<Rightarrow> string \<Rightarrow> string list" where
  "Split s sep = splitAcc sep [] s"

text \<open>\<^verbatim>\<open>strings.ReplaceAll(s, old, new)\<close> for a non-empty \<open>old\<close>.\<close>

function ReplaceAll :: "string \<Rightarrow> string \<Rightarrow> string \<Rightarrow> string" where
  "ReplaceAll s old new =
     (if s = [] \<or> old = [] then s
      else if prefix old s then new @ ReplaceAll (drop (length old) s) old new
      else hd s # ReplaceAll (tl s) old new)"
  by pat_completeness auto
termination
  by (relation "measure (\<lambda>(s, old, new). length s)") auto

text \<open>\<^verbatim>\<open>strings.Join\<close>.\<close>

fun Join :: "string list \<Rightarrow> string \<Rightarrow> string" where
  "Join [] sep = []"
| "Join [x] sep = x"
| "Join (x # y # ys) sep = x @ sep @ Join (y # ys) sep"

subsection \<open>\<^verbatim>\<open>url.QueryUnescape\<close>\<close>

text \<open>
  The standard library's query unescaping: every \<^verbatim>\<open>%\<close> must be followed by two
  hexadecimal digits, otherwise the call fails (\<open>None\<close>); \<^verbatim>\<open>%XX\<close> becomes the byte
  \<open>XX\<close> and \<^verbatim>\<open>+\<close> becomes a space.
\<close>

definition ishex :: "char \<Rightarrow> bool" where
  "ishex c = ((CHR ''0'' \<le> c \<and> c \<le> CHR ''9'') \<or> (CHR ''a'' \<le> c \<and> c \<le> CHR ''f'')
              \<or> (CHR ''A'' \<le> c \<and> c \<le> CHR ''F''))"

definition unhex :: "char \<Rightarrow> nat" where
  "unhex c =
     (if CHR ''0'' \<le> c \<and> c \<le> CHR ''9'' then of_char c - of_char CHR ''0''
      else if CHR ''a'' \<le> c \<and> c \<le> CHR ''f'' then of_char c - of_char CHR ''a'' + 10
      else if CHR ''A'' \<le> c \<and> c \<le> CHR ''F'' then of_char c - of_char CHR ''A'' + 10
      else 0)"

fun QueryUnescape :: "string \<Rightarrow> string option" where
  "QueryUnescape [] = Some []"
| "QueryUnescape (c # cs) =
     (if c = CHR ''%'' then
        (case cs of
           h1 # h2 # rest \<Rightarrow>
             (if ishex h1 \<and> ishex h2
              then map_option ((#) (char_of (16 * unhex h1 + unhex h2))) (QueryUnescape rest)
              else None)
         | _ \<Rightarrow> None)
      else if c = CHR ''+'' then map_option ((#) CHR '' '') (QueryUnescape cs)
      else map_option ((#) c) (QueryUnescape cs))"

subsection \<open>The Link Filter\<close>

text \<open>
  \<^verbatim>\<open>urlDecodeLikeSed\<close>. The source keeps the replacement table in a Go map and ranges
  over it, in an order the runtime chooses; \<open>repls\<close> lists it in the order of the source
  text. No key of the table occurs inside another one or begins inside another one, and
  no replacement character occurs in a key, so the order does not change the result.
\<close>

definition repls :: "(string \<times> string) list" where
  "repls =
     [(''%2520'', '' ''), (''%20'', '' ''), (''%3F'', ''?''), (''%3D'', ''=''),
      (''%21'', ''!''), (''%23'', ''#''), (''%24'', ''$''), (''%2B'', ''+''),
      (''%26'', ''&'')]"

definition urlDecodeLikeSed :: "string \<Rightarrow> string" where
  "urlDecodeLikeSed s =
     (let decoded = (case QueryUnescape s of None \<Rightarrow> s | Some d \<Rightarrow> d)
      in fold (\<lambda>(k, v) d. ReplaceAll d k v) repls decoded)"

text \<open>\<^verbatim>\<open>googleHostFilter = regexp.MustCompile(`(?i)google`)\<close>, matched anywhere in the link.\<close>

definition googleHostFilter :: "string \<Rightarrow> bool" where
  "googleHostFilter l = Contains (ToLower l) ''google''"

text \<open>\<^verbatim>\<open>uniqueStrings\<close>: the loop over \<open>in\<close>, with the \<open>seen\<close> map as a set.\<close>

fun uniqueLoop :: "string set \<Rightarrow> string list \<Rightarrow> string list" where
  "uniqueLoop seen [] = []"
| "uniqueLoop seen (s # ss) =
     (if s = [] then uniqueLoop seen ss
      else if s \<in> seen then uniqueLoop seen ss
      else s # uniqueLoop (insert s seen) ss)"

definition uniqueStrings :: "string list \<Rightarrow> string list" where
  "uniqueStrings xs = uniqueLoop {} xs"

text \<open>\<^verbatim>\<open>filterLinks\<close>: the loop over \<open>items\<close>, then \<^verbatim>\<open>uniqueStrings\<close>.\<close>

fun filterLoop :: "string \<Rightarrow> string list \<Rightarrow> string list" where
  "filterLoop target [] = []"
| "filterLoop target (l # ls) =
     (if l = [] then filterLoop target ls
      else if \<not> Contains (ToLower l) (ToLower target) then filterLoop target ls
      else if googleHostFilter l then filterLoop target ls
      else urlDecodeLikeSed l # filterLoop target ls)"

definition filterLinks :: "string list \<Rightarrow> string \<Rightarrow> string list" where
  "filterLinks items target = uniqueStrings (filterLoop target items)"

subsection \<open>The world outside the program\<close>

text \<open>
  Go maps are reference values: a \<^verbatim>\<open>Config\<close> holds the address of its
  \<^verbatim>\<open>exhaustedKeys\<close> map, and the maps live in the \<open>heap\<close>. The file system maps a path
  to the bytes of a regular file; \<open>openError\<close> gives, for a path, the error of opening it
  for appending (\<open>None\<close> when \<^verbatim>\<open>os.OpenFile\<close> succeeds). \<open>stdout\<close> and \<open>stderr\<close> collect
  the lines printed. \<open>clock\<close> counts the readings of the environment made so far, and
  \<open>events\<close> is the history of the run.
\<close>

type_synonym addr = nat

record request =
  req_key :: string
  req_start :: int
  req_q :: string

record GoogleResponse =
  gr_Items :: "string list"
  gr_Error :: "string option"

datatype http_result = HttpErr string | HttpOk GoogleResponse

datatype event =
    EvPage int
  | EvAttempt int string
  | EvRequest int request http_result
  | EvSleep real

record World =
  clock :: nat
  heap :: "addr \<Rightarrow> string set"
  files :: "string \<rightharpoonup> string"
  openError :: "string \<Rightarrow> string option"
  stdout :: "string list"
  stderr :: "string list"
  events :: "event list"

text \<open>
  What the program reads from its environment, by the reading's number: whether the
  context is cancelled (\<^verbatim>\<open>ctx.Err() != nil\<close>), the clock
  (\<^verbatim>\<open>time.Now().UnixNano()\<close>), and the answer of the search provider to a request.
  \<open>urlParseHost\<close> stands for the standard library's \<^verbatim>\<open>url.Parse\<close>: the \<^verbatim>\<open>Host\<close> of the
  parsed URL, or \<open>None\<close> when parsing fails.
\<close>

record Env =
  ctxErr :: "nat \<Rightarrow> bool"
  unixNano :: "nat \<Rightarrow> nat"
  httpGetJSON :: "nat \<Rightarrow> request \<Rightarrow> http_result"
  urlParseHost :: "string \<Rightarrow> string option"

definition tick :: "World \<Rightarrow> World" where
  "tick w = w\<lparr>clock := Suc (clock w)\<rparr>"

subsection \<open>IO helpers\<close>

definition fileExists :: "World \<Rightarrow> string \<Rightarrow> bool" where
  "fileExists w p = (files w p \<noteq> None)"

text \<open>
  \<^verbatim>\<open>bufio.Scanner\<close> with \<^verbatim>\<open>ScanLines\<close>: the pieces between line feeds, without a
  final empty piece, each without one trailing carriage return. A line of
  \<^verbatim>\<open>bufio.MaxScanTokenSize\<close> bytes or more stops the scan with an error, and the lines
  before it are kept.
\<close>

definition MaxScanTokenSize :: int where
  "MaxScanTokenSize = 65536"

definition splitLines :: "string \<Rightarrow> string list" where
  "splitLines content =
     (let ps = Split content [CHR 0x0A] in if last ps = [] then butlast ps else ps)"

definition dropCR :: "string \<Rightarrow> string" where
  "dropCR l = (if l \<noteq> [] \<and> last l = CHR 0x0D then butlast l else l)"

definition scanLines :: "string \<Rightarrow> string list \<times> bool" where
  "scanLines content =
     (let raw = splitLines content
      in (map dropCR (takeWhile (\<lambda>l. int (length l) < MaxScanTokenSize) raw),
          \<exists>l \<in> set raw. \<not> int (length l) < MaxScanTokenSize))"

text \<open>\<^verbatim>\<open>readLines\<close> returns the lines read and whether \<^verbatim>\<open>err != nil\<close>.\<close>

definition readLines :: "World \<Rightarrow> string \<Rightarrow> string list \<times> bool" where
  "readLines w p =
     (case files w p of
        None \<Rightarrow> ([], True)
      | Some content \<Rightarrow>
          (let (toks, err) = scanLines content
           in (filter (\<lambda>s. s \<noteq> []) (map TrimSpace toks), err)))"

text \<open>\<^verbatim>\<open>fmt.Println\<close> of each element.\<close>

definition printLines :: "string list \<Rightarrow> World \<Rightarrow> World" where
  "printLines ls w = w\<lparr>stdout := stdout w @ ls\<rparr>"

definition logErr :: "string \<Rightarrow> World \<Rightarrow> World" where
  "logErr l w = w\<lparr>stderr := stderr w @ [l]\<rparr>"

definition logv :: "bool \<Rightarrow> string \<Rightarrow> World \<Rightarrow> World" where
  "logv v l w = (if v then w\<lparr>stdout := stdout w @ [l]\<rparr> else w)"

subsection \<open>The Output Sink\<close>

text \<open>The last loop of \<^verbatim>\<open>outputOrPrintUnique\<close>: the lines it writes.\<close>

fun appendNew :: "string set \<Rightarrow> string list \<Rightarrow> string list" where
  "appendNew existing [] = []"
| "appendNew existing (u # us) =
     (if u \<notin> existing then u # appendNew (insert u existing) us
      else appendNew existing us)"

definition outputOrPrintUnique :: "string list \<Rightarrow> string \<Rightarrow> World \<Rightarrow> World" where
  "outputOrPrintUnique urls outputPath w =
     (let uniq = sort (uniqueStrings urls)
      in if outputPath = [] then printLines uniq w
         else
           let existing = (if fileExists w outputPath
                           then set (fst (readLines w outputPath)) else {})
           in case openError w outputPath of
                Some err \<Rightarrow>
                  printLines uniq (logErr (''[!] cannot open output file: '' @ err) w)
              | None \<Rightarrow>
                  w\<lparr>files := (files w)(outputPath \<mapsto>
                       (case files w outputPath of None \<Rightarrow> [] | Some old \<Rightarrow> old)
                       @ concat (map (\<lambda>u. u @ [CHR 0x0A]) (appendNew existing uniq)))\<rparr>)"

subsection \<open>Configuration\<close>

text \<open>
  The \<^verbatim>\<open>Config\<close> struct, without the HTTP client. \<open>exhaustedKeys\<close> is the address of
  the map in the heap, so that a copy of a \<open>Config\<close> refers to the same map. The two
  slices are values here: no element of \<open>apiKeys\<close> is ever assigned, and \<open>requestStore\<close>
  is set to nil at the start of every \<^verbatim>\<open>dorkRun\<close> and grown by \<^verbatim>\<open>append\<close> only.
\<close>

record Config =
  target :: string
  pages :: int
  dork :: string
  exclusions :: string
  contents :: string
  delay :: real
  dictionary :: string
  extension :: string
  outputPath :: string
  domainsFile :: string
  proxy :: string
  includeSubdomains :: bool
  subdomainMode :: bool
  verbose :: bool
  excludeTargets :: string
  inFile :: string
  inUrl :: string
  apiKeys :: "string list"
  exhaustedKeys :: addr
  dynamicDelay :: real
  requestStore :: "string list"
  resultsFound :: bool
  requestCounter :: int
  noResultCounter :: int

subsection \<open>Query builders\<close>

text \<open>
  \<^verbatim>\<open>buildExclusions\<close>. The first loop of each branch trims the entries and skips the
  empty ones; the last loop writes \<^verbatim>\<open>parts[1..]\<close> into the builder \<open>b\<close>, by index.
\<close>

fun trimmedParts :: "string list \<Rightarrow> string list" where
  "trimmedParts [] = []"
| "trimmedParts (ex # exs) =
     (let ex' = TrimSpace ex in if ex' = [] then trimmedParts exs else ex' # trimmedParts exs)"

definition exclusionParts :: "World \<Rightarrow> string \<Rightarrow> string list" where
  "exclusionParts w excl =
     (if fileExists w excl then trimmedParts (fst (readLines w excl))
      else if Contains excl '','' then trimmedParts (Split excl '','')
      else [TrimSpace excl])"

function writeParts :: "string list \<Rightarrow> nat \<Rightarrow> string \<Rightarrow> string" where
  "writeParts parts i b =
     (if i < length parts then writeParts parts (Suc i) (b @ ''+-'' @ parts ! i) else b)"
  by pat_completeness auto
termination
  by (relation "measure (\<lambda>(parts, i, b). length parts - i)") auto

definition buildExclusions :: "World \<Rightarrow> string \<Rightarrow> bool \<Rightarrow> string" where
  "buildExclusions w excl multiline =
     (let parts = exclusionParts w excl
      in if length parts > 0 then writeParts parts 1 (''-site:'' @ parts ! 0) else [])"

text \<open>\<^verbatim>\<open>buildContentsQuery\<close>.\<close>

definition intext :: "string \<Rightarrow> string" where
  "intext s = ''intext:\"'' @ s @ ''\"''"

fun intextParts :: "string list \<Rightarrow> string list" where
  "intextParts [] = []"
| "intextParts (s # ss) =
     (let s' = TrimSpace s in if s' \<noteq> [] then intext s' # intextParts ss else intextParts ss)"

definition buildContentsQuery :: "World \<Rightarrow> string \<Rightarrow> string" where
  "buildContentsQuery w cont =
     (if fileExists w cont then
        (case fst (readLines w cont) of [] \<Rightarrow> [] | l # _ \<Rightarrow> intext l)
      else if Contains cont '','' then Join (intextParts (Split cont '','')) '' OR ''
      else intext cont)"

text \<open>\<^verbatim>\<open>buildInurlQuery\<close>; \<open>Trim\<close> is \<^verbatim>\<open>strings.Trim(s, `"`)\<close>.\<close>

definition TrimQuote :: "string \<Rightarrow> string" where
  "TrimQuote s =
     rev (dropWhile (\<lambda>c. c = CHR 0x22) (rev (dropWhile (\<lambda>c. c = CHR 0x22) s)))"

definition clean :: "string \<Rightarrow> string" where
  "clean s = TrimQuote (TrimSpace s)"

fun cleanTerms :: "string list \<Rightarrow> string list" where
  "cleanTerms [] = []"
| "cleanTerms (s # ss) =
     (let t = clean s in if t \<noteq> [] then t # cleanTerms ss else cleanTerms ss)"

definition buildInurlQuery :: "World \<Rightarrow> string \<Rightarrow> string" where
  "buildInurlQuery w dict =
     Join (if fileExists w dict then cleanTerms (fst (readLines w dict))
           else if Contains dict '','' then cleanTerms (Split dict '','')
           else cleanTerms [dict]) ''|||''"

text \<open>
  The query clauses of one attempt of \<^verbatim>\<open>dorkRun\<close>, in the order in which the
  \<^verbatim>\<open>switch\<close> appends them to \<^verbatim>\<open>urls\<close>; \<open>buildOne\<close> makes the request of a clause.
  The request keeps the parts of the URL that vary (key, start index, trimmed query)
  instead of the escaped URL text.
\<close>

definition withExcl :: "Config \<Rightarrow> string \<Rightarrow> string" where
  "withExcl c q = (if excludeTargets c \<noteq> [] then q @ '' '' @ excludeTargets c else q)"

definition buildOne :: "string \<Rightarrow> int \<Rightarrow> string \<Rightarrow> request" where
  "buildOne apiKey startIdx q = \<lparr>req_key = apiKey, req_start = startIdx, req_q = TrimSpace q\<rparr>"

text \<open>
  The fourth clause of the custom query with subdomains. Its format has one verb more
  than \<^verbatim>\<open>fmt.Sprintf\<close> gets arguments, so the last one is printed as
  \<^verbatim>\<open>%!s(MISSING)\<close>.
\<close>

definition noisePrefixes :: "string list" where
  "noisePrefixes =
     [''www'', ''techblog'', ''infohub'', ''blog'', ''store'', ''support'', ''help'',
      ''addons'', ''forum'', ''community'', ''docs'', ''developer'', ''about'',
      ''resources'', ''cdn'', ''career'', ''faq'', ''news'', ''jobs'', ''library'', ''id'',
      ''blogs'', ''faq'', ''trust'', ''forums'', ''dl'']"

definition wideDork :: "Config \<Rightarrow> string" where
  "wideDork c =
     ''site:*.'' @ target c @ '' '' @ dork c
     @ concat (map (\<lambda>p. '' -'' @ p @ ''.'' @ target c) noisePrefixes)
     @ '' -downloads.%!s(MISSING)''"

definition dorkQueries :: "Config \<Rightarrow> string list" where
  "dorkQueries c =
     (if includeSubdomains c then
        [withExcl c (''site:*.'' @ target c @ '' '' @ dork c @ '' -www.'' @ target c),
         withExcl c (''site:*.*.'' @ target c @ '' '' @ dork c),
         withExcl c (''site:*.*.*.'' @ target c @ '' '' @ dork c),
         withExcl c (wideDork c)]
      else [withExcl c (''site:'' @ target c @ '' '' @ dork c)])"

definition extBuildQ :: "Config \<Rightarrow> string \<Rightarrow> string \<Rightarrow> string list" where
  "extBuildQ c extToken scope =
     [withExcl c (scope @ '' filetype:'' @ extToken),
      withExcl c (scope @ '' ext:'' @ extToken)]"

definition extQueries :: "Config \<Rightarrow> string \<Rightarrow> string list" where
  "extQueries c ext =
     (let extToken = TrimSpace ext
      in if includeSubdomains c then
           concat (map (extBuildQ c extToken)
             [''site:'' @ target c, ''site:*.'' @ target c,
              ''site:*.*.'' @ target c, ''site:*.*.*.'' @ target c])
         else extBuildQ c extToken (''site:'' @ target c))"

definition dictBuildQ :: "Config \<Rightarrow> string \<Rightarrow> string \<Rightarrow> string" where
  "dictBuildQ c pre term = withExcl c (pre @ '' inurl:\"'' @ TrimSpace term @ ''\"'')"

fun dictLoopSub :: "Config \<Rightarrow> string list \<Rightarrow> string list" where
  "dictLoopSub c [] = []"
| "dictLoopSub c (t # ts) =
     (let t' = TrimSpace t
      in if t' = [] then dictLoopSub c ts
         else [dictBuildQ c (''site:*.'' @ target c) t',
               dictBuildQ c (''site:*.*.'' @ target c) t',
               dictBuildQ c (''site:*.*.*.'' @ target c) t'] @ dictLoopSub c ts)"

fun dictLoop :: "Config \<Rightarrow> string list \<Rightarrow> string list" where
  "dictLoop c [] = []"
| "dictLoop c (t # ts) =
     (let t' = TrimSpace t
      in if t' = [] then dictLoop c ts
         else dictBuildQ c (''site:'' @ target c) t' # dictLoop c ts)"

definition dictQueries :: "Config \<Rightarrow> string list" where
  "dictQueries c =
     (let terms = (if inUrl c \<noteq> [] then Split (inUrl c) ''|||'' else []);
          terms = (if length terms = 0 then [dictionary c] else terms)
      in if includeSubdomains c then dictLoopSub c terms else dictLoop c terms)"

definition contentsBuildQ :: "Config \<Rightarrow> string \<Rightarrow> string" where
  "contentsBuildQ c pre = withExcl c (pre @ '' '' @ inFile c)"

definition contentsQueries :: "Config \<Rightarrow> string list" where
  "contentsQueries c =
     (if includeSubdomains c then
        [contentsBuildQ c (''site:*.'' @ target c),
         contentsBuildQ c (''site:*.*.'' @ target c),
         contentsBuildQ c (''site:*.*.*.'' @ target c)]
      else [contentsBuildQ c (''site:'' @ target c)])"

definition buildQueries :: "Config \<Rightarrow> string \<Rightarrow> string list" where
  "buildQueries c ext =
     (if dork c \<noteq> [] then dorkQueries c
      else if ext \<noteq> [] then extQueries c ext
      else if dictionary c \<noteq> [] then dictQueries c
      else if contents c \<noteq> [] then contentsQueries c
      else [withExcl c (''site:'' @ target c)])"

text \<open>
  The exclusion list in the words of the specification: the lines that the file gives,
  or the entries of the comma-separated string, trimmed, without the blank ones.
\<close>

definition exclusionList :: "World \<Rightarrow> string \<Rightarrow> string list" where
  "exclusionList w excl =
     (if fileExists w excl then fst (readLines w excl)
      else filter (\<lambda>e. e \<noteq> []) (map TrimSpace (Split excl '','')))"

text \<open>The exclusion clause in the words of the specification.\<close>

definition exclusionClause :: "string list \<Rightarrow> string" where
  "exclusionClause es = ''-site:'' @ hd es @ concat (map (\<lambda>e. ''+-'' @ e) (tl es))"

subsection \<open>Credential Pool\<close>

text \<open>
  \<^verbatim>\<open>getRandomApiKey\<close>: \<open>None\<close> is the error. The index is the clock modulo the number
  of available keys; the clock is read only when a key is available.
\<close>

definition getRandomApiKey :: "Env \<Rightarrow> Config \<Rightarrow> World \<Rightarrow> string option \<times> World" where
  "getRandomApiKey env c w =
     (let available = filter (\<lambda>k. k \<notin> heap w (exhaustedKeys c)) (apiKeys c)
      in if length available = 0 then (None, w)
         else (Some (available ! (unixNano env (clock w) mod length available)), tick w))"

definition markExhausted :: "Config \<Rightarrow> string \<Rightarrow> World \<Rightarrow> World" where
  "markExhausted c apiKey w =
     w\<lparr>heap := (heap w)(exhaustedKeys c := insert apiKey (heap w (exhaustedKeys c)))\<rparr>"

subsection \<open>Pacing\<close>

definition delayControl :: "Config \<Rightarrow> World \<Rightarrow> World" where
  "delayControl c w =
     (let d = (if delay c > 0 then delay c else dynamicDelay c)
      in if d > 0 then w\<lparr>events := events w @ [EvSleep d]\<rparr> else w)"

subsection \<open>\<^verbatim>\<open>dorkRun\<close>, the pagination and retry loop\<close>

text \<open>
  The loop over \<^verbatim>\<open>urls\<close> of one attempt. \<open>FetchReturn\<close> is the \<^verbatim>\<open>return
  c.requestStore\<close> on cancellation; \<open>FetchDone\<close> carries \<^verbatim>\<open>combined\<close> and
  \<^verbatim>\<open>respErr\<close> at the end of the loop.
\<close>

datatype fetch_result =
    FetchReturn World
  | FetchDone World "string list" "string option"

definition isQuota :: "string \<Rightarrow> bool" where
  "isQuota msg = Contains (ToLower msg) ''quota''"

fun fetchLoop ::
  "Env \<Rightarrow> Config \<Rightarrow> string \<Rightarrow> int \<Rightarrow> request list \<Rightarrow> string list \<Rightarrow> string option \<Rightarrow> World
     \<Rightarrow> fetch_result" where
  "fetchLoop env c apiKey page [] combined respErr w = FetchDone w combined respErr"
| "fetchLoop env c apiKey page (u # us) combined respErr w =
     (if ctxErr env (clock w) then FetchReturn (tick w)
      else
        let w1 = tick w;
            res = httpGetJSON env (clock w1) u;
            w2 = (tick w1)\<lparr>events := events w1 @ [EvRequest page u res]\<rparr>
        in case res of
             HttpErr e \<Rightarrow> fetchLoop env c apiKey page us combined (Some e) w2
           | HttpOk gr \<Rightarrow>
               (if gr_Error gr \<noteq> None \<and> the (gr_Error gr) \<noteq> [] then
                  let msg = the (gr_Error gr);
                      w3 = (if isQuota msg then markExhausted c apiKey w2 else w2)
                  in fetchLoop env c apiKey page us combined (Some msg) w3
                else
                  let links = filterLinks (gr_Items gr) (target c)
                  in fetchLoop env c apiKey page us (combined @ links) respErr w2))"

text \<open>
  One turn of the loop \<^verbatim>\<open>for triedKeys < maxTries\<close>, and how it leaves: by
  \<^verbatim>\<open>return c.requestStore\<close> (\<open>AReturn\<close>), by \<^verbatim>\<open>break\<close> after links were found
  (\<open>ABreak\<close>), with \<^verbatim>\<open>triedKeys++\<close> after an error (\<open>ARetry\<close>), or with
  \<^verbatim>\<open>triedKeys = maxTries\<close> after an empty answer (\<open>AEmpty\<close>).
\<close>

datatype attempt_result =
    AReturn Config World
  | ABreak Config World
  | ARetry Config World
  | AEmpty Config World

text \<open>
  The end of a turn, from \<^verbatim>\<open>combined = uniqueStrings(combined)\<close> on, and the whole turn.
\<close>

definition settle :: "Config \<Rightarrow> World \<Rightarrow> string list \<Rightarrow> string option \<Rightarrow> attempt_result" where
  "settle c w combined0 respErr =
     (let combined = uniqueStrings combined0
      in if length combined > 0 then
           ABreak
             (c\<lparr>requestStore := requestStore c @ combined,
                resultsFound := True,
                noResultCounter := 0,
                requestCounter := requestCounter c + 1,
                dynamicDelay :=
                  (if delay c = 0 \<and> dynamicDelay c > 0.05
                   then dynamicDelay c - 0.05 else dynamicDelay c)\<rparr>)
             w
         else
           (case respErr of
              Some e \<Rightarrow> ARetry c (delayControl c (logv (verbose c) (''Error: '' @ e) w))
            | None \<Rightarrow>
                let w1 = delayControl c w;
                    c1 = c\<lparr>noResultCounter := noResultCounter c + 1\<rparr>;
                    c2 = (if delay c1 = 0
                          then c1\<lparr>dynamicDelay := dynamicDelay c1 + 0.1\<rparr>
                          else c1)
                in AEmpty c2 (delayControl c2 w1)))"

definition attempt :: "Env \<Rightarrow> string \<Rightarrow> int \<Rightarrow> Config \<Rightarrow> World \<Rightarrow> attempt_result" where
  "attempt env ext page c w =
     (if ctxErr env (clock w) then AReturn c (tick w)
      else
        case getRandomApiKey env c (tick w) of
          (None, w2) \<Rightarrow> AReturn c (logErr ''No valid API keys remaining.'' w2)
        | (Some apiKey, w2) \<Rightarrow>
            if apiKey = [] then AReturn c (logErr ''No valid API keys remaining.'' w2)
            else
              let w3 = logv (verbose c) (''Using API Key: '' @ apiKey)
                         (w2\<lparr>events := events w2 @ [EvAttempt page apiKey]\<rparr>);
                  startIdx = page * 10 + 1;
                  urls = map (buildOne apiKey startIdx) (buildQueries c ext)
              in case fetchLoop env c apiKey page urls [] None w3 of
                   FetchReturn w4 \<Rightarrow> AReturn c w4
                 | FetchDone w4 combined0 respErr \<Rightarrow> settle c w4 combined0 respErr)"

text \<open>
  The two loops. \<open>LReturn\<close> is a \<^verbatim>\<open>return c.requestStore\<close> from inside, \<open>LNext\<close> the
  end of the loop.
\<close>

datatype loop_result =
    LReturn Config World
  | LNext Config World

function attemptLoop ::
  "Env \<Rightarrow> string \<Rightarrow> int \<Rightarrow> nat \<Rightarrow> nat \<Rightarrow> Config \<Rightarrow> World \<Rightarrow> loop_result" where
  "attemptLoop env ext page maxTries triedKeys c w =
     (if triedKeys < maxTries then
        (case attempt env ext page c w of
           AReturn c' w' \<Rightarrow> LReturn c' w'
         | ABreak c' w' \<Rightarrow> LNext c' w'
         | ARetry c' w' \<Rightarrow> attemptLoop env ext page maxTries (Suc triedKeys) c' w'
         | AEmpty c' w' \<Rightarrow> attemptLoop env ext page maxTries maxTries c' w')
      else LNext c w)"
  by pat_completeness auto
termination
  by (relation "measure (\<lambda>(env, ext, page, maxTries, triedKeys, c, w). maxTries - triedKeys)")
     auto

text \<open>
  The loop \<^verbatim>\<open>for page < c.pages\<close>. The bound is the field \<open>pages\<close> of the
  configuration at the start of the loop; no statement of the loop assigns to it.
\<close>

function pageLoop ::
  "Env \<Rightarrow> string \<Rightarrow> int \<Rightarrow> int \<Rightarrow> Config \<Rightarrow> World \<Rightarrow> loop_result" where
  "pageLoop env ext n page c w =
     (if page < n then
        (if ctxErr env (clock w) then LReturn c (tick w)
         else
           case attemptLoop env ext page (length (apiKeys c)) 0 c
                  ((tick w)\<lparr>events := events w @ [EvPage page]\<rparr>) of
             LReturn c' w' \<Rightarrow> LReturn c' w'
           | LNext c' w' \<Rightarrow>
               if \<not> resultsFound c' then LNext c' w'
               else pageLoop env ext n (page + 1) (c'\<lparr>resultsFound := False\<rparr>) w')
      else LNext c w)"
  by pat_completeness auto
termination
  by (relation "measure (\<lambda>(env, ext, n, page, c, w). nat (n - page))") auto

definition dorkRun :: "Env \<Rightarrow> string \<Rightarrow> Config \<Rightarrow> World \<Rightarrow> string list \<times> Config \<times> World" where
  "dorkRun env ext c w =
     (let c0 = c\<lparr>requestStore := [], requestCounter := 0, noResultCounter := 0,
                 resultsFound := False\<rparr>;
          c1 = (if pages c0 = 0 then c0\<lparr>pages := 10\<rparr> else c0)
      in case pageLoop env ext (pages c1) 0 c1 w of
           LReturn c' w' \<Rightarrow> (requestStore c', c', w')
         | LNext c' w' \<Rightarrow>
             if length (requestStore c') = 0 then ([], c', w')
             else (requestStore c', c', w'))"

text \<open>The configuration in which a turn of the loop, or a loop, ends.\<close>

fun attemptConfig :: "attempt_result \<Rightarrow> Config" where
  "attemptConfig (AReturn c w) = c"
| "attemptConfig (ABreak c w) = c"
| "attemptConfig (ARetry c w) = c"
| "attemptConfig (AEmpty c w) = c"

fun attemptWorld :: "attempt_result \<Rightarrow> World" where
  "attemptWorld (AReturn c w) = w"
| "attemptWorld (ABreak c w) = w"
| "attemptWorld (ARetry c w) = w"
| "attemptWorld (AEmpty c w) = w"

fun loopConfig :: "loop_result \<Rightarrow> Config" where
  "loopConfig (LReturn c w) = c"
| "loopConfig (LNext c w) = c"

fun loopWorld :: "loop_result \<Rightarrow> World" where
  "loopWorld (LReturn c w) = w"
| "loopWorld (LNext c w) = w"

subsection \<open>The modes\<close>

text \<open>
  The methods have a pointer receiver: they return the configuration as they leave it.
  \<^verbatim>\<open>notFound\<close> does nothing.
\<close>

definition dictionaryAttack :: "Env \<Rightarrow> Config \<Rightarrow> World \<Rightarrow> Config \<times> World" where
  "dictionaryAttack env c w =
     (let w1 = (if verbose c then printLines [''Target: '' @ target c] w else w);
          c1 = (if inUrl c = [] then c\<lparr>inUrl := buildInurlQuery w1 (dictionary c)\<rparr> else c);
          (res, c', w2) = dorkRun env [] c1 w1
      in if length res = 0 then (c', w2)
         else (c', outputOrPrintUnique res (outputPath c') w2))"

text \<open>
  The loop over the extensions. The first component tells that the loop has returned
  from \<^verbatim>\<open>extensionAttack\<close> on cancellation; the second is \<^verbatim>\<open>all\<close>.
\<close>

fun extLoop ::
  "Env \<Rightarrow> string list \<Rightarrow> string list \<Rightarrow> Config \<Rightarrow> World
     \<Rightarrow> bool \<times> string list \<times> Config \<times> World" where
  "extLoop env [] all c w = (False, all, c, w)"
| "extLoop env (ext # exts) all c w =
     (if ctxErr env (clock w)
      then (True, all, c, logErr ''Operation cancelled: context canceled'' (tick w))
      else
        let w1 = (if verbose c then printLines [''Checking extension: '' @ ext] (tick w)
                  else tick w);
            (res, c', w2) = dorkRun env ext c w1
        in extLoop env exts (if length res > 0 then all @ res else all) c' w2)"

definition extensionAttack :: "Env \<Rightarrow> Config \<Rightarrow> World \<Rightarrow> Config \<times> World" where
  "extensionAttack env c w =
     (let exts =
            (if fileExists w (extension c) then fst (readLines w (extension c))
             else if Contains (extension c) '','' then trimmedParts (Split (extension c) '','')
             else if extension c \<noteq> [] then [TrimSpace (extension c)]
             else []);
          (returned, all, c', w') = extLoop env exts [] c w
      in if returned then (c', w')
         else if length all = 0 then (c', w')
         else
           let all' = uniqueStrings all
           in if outputPath c' \<noteq> [] then (c', outputOrPrintUnique all' (outputPath c') w')
              else (c', printLines all' w'))"

text \<open>\<^verbatim>\<open>hostOf\<close>, over the library's URL parser.\<close>

definition hostOf :: "Env \<Rightarrow> string \<Rightarrow> string" where
  "hostOf env raw =
     (case urlParseHost env raw of
        Some h \<Rightarrow>
          if h \<noteq> [] then h
          else if \<not> prefix ''http://'' raw \<and> \<not> prefix ''https://'' raw then
            (case urlParseHost env (''http://'' @ raw) of
               Some h2 \<Rightarrow> if h2 \<noteq> [] then h2 else []
             | None \<Rightarrow> [])
          else []
      | None \<Rightarrow>
          if \<not> prefix ''http://'' raw \<and> \<not> prefix ''https://'' raw then
            (case urlParseHost env (''http://'' @ raw) of
               Some h2 \<Rightarrow> if h2 \<noteq> [] then h2 else []
             | None \<Rightarrow> [])
          else [])"

definition subdomainAttack :: "Env \<Rightarrow> Config \<Rightarrow> World \<Rightarrow> Config \<times> World" where
  "subdomainAttack env c w =
     (let w1 = (if verbose c then printLines [''Target: '' @ target c] w else w);
          (res, c', w2) = dorkRun env [] c w1
      in if length res = 0 then (c', w2)
         else
           let hosts = sort (remdups (filter (\<lambda>h. h \<noteq> []) (map (hostOf env) res)))
           in if outputPath c' \<noteq> [] then (c', outputOrPrintUnique hosts (outputPath c') w2)
              else (c', printLines hosts w2))"

text \<open>
  \<^verbatim>\<open>contentsAttack\<close>. With a file of contents, every line is searched with a copy
  \<^verbatim>\<open>c2 := *c\<close> of the configuration, and the configuration itself stays as it is.
\<close>

fun contentsLoop :: "Env \<Rightarrow> Config \<Rightarrow> string list \<Rightarrow> World \<Rightarrow> World" where
  "contentsLoop env c [] w = w"
| "contentsLoop env c (content # rest) w =
     (let c2 = c\<lparr>contents := content, inFile := intext content\<rparr>;
          (res, c2', w1) = dorkRun env [] c2 w
      in if length res = 0 then contentsLoop env c rest w1
         else
           let w2 = (if verbose c2' then printLines [''Files found containing: '' @ content] w1
                     else w1)
           in contentsLoop env c rest (outputOrPrintUnique res (outputPath c2') w2))"

definition contentsAttack :: "Env \<Rightarrow> Config \<Rightarrow> World \<Rightarrow> Config \<times> World" where
  "contentsAttack env c w =
     (let w0 = (if verbose c then printLines [''Target: '' @ target c] w else w)
      in if fileExists w0 (contents c)
         then (c, contentsLoop env c (fst (readLines w0 (contents c))) w0)
         else
           let c1 = c\<lparr>inFile := buildContentsQuery w0 (contents c)\<rparr>;
               (res, c', w1) = dorkRun env [] c1 w0
           in if length res = 0 then (c', w1)
              else (c', outputOrPrintUnique res (outputPath c') w1))"

subsection \<open>\<^verbatim>\<open>readDomainsFile\<close>\<close>

text \<open>
  One turn of the loop over the domains, from the copy \<^verbatim>\<open>c2\<close> on. The first component
  tells that the turn has returned \<^verbatim>\<open>ctx.Err()\<close>; the second is \<^verbatim>\<open>c2\<close> at the end of
  the turn, where the program drops it.
\<close>

definition runTarget :: "Env \<Rightarrow> Config \<Rightarrow> World \<Rightarrow> bool \<times> Config \<times> World" where
  "runTarget env c2 w =
     (if dork c2 \<noteq> [] then
        let (res, c3, w1) = dorkRun env [] c2 w
        in if ctxErr env (clock w1) then (True, c3, tick w1)
           else if length res = 0 then (False, c3, tick w1)
           else (False, c3, outputOrPrintUnique res (outputPath c3) (tick w1))
      else if extension c2 \<noteq> [] then
        let (c3, w1) = extensionAttack env c2 w in (ctxErr env (clock w1), c3, tick w1)
      else if dictionary c2 \<noteq> [] then
        let (c3, w1) = dictionaryAttack env c2 w in (ctxErr env (clock w1), c3, tick w1)
      else if subdomainMode c2 then
        let (c3, w1) = subdomainAttack env c2 w in (ctxErr env (clock w1), c3, tick w1)
      else if contents c2 \<noteq> [] then
        let (c3, w1) = contentsAttack env c2 w in (ctxErr env (clock w1), c3, tick w1)
      else (False, c2, w))"

text \<open>
  The history of a run over a domains file: for every target, the adaptive delay and
  the exhausted set of its configuration \<^verbatim>\<open>c2\<close> when its turn starts and when it ends.
\<close>

record targetRun =
  runTargetName :: string
  startDelay :: real
  startExhausted :: "string set"
  endDelay :: real
  endExhausted :: "string set"

datatype run_error = FileNotFound string | Canceled

fun domainsLoop ::
  "Env \<Rightarrow> Config \<Rightarrow> string list \<Rightarrow> World \<Rightarrow> run_error option \<times> World \<times> targetRun list" where
  "domainsLoop env c [] w = (None, w, [])"
| "domainsLoop env c (line # lines) w =
     (if ctxErr env (clock w) then (Some Canceled, tick w, [])
      else
        let w0 = tick w; tgt = TrimSpace line
        in if tgt = [] then domainsLoop env c lines w0
           else
             let c2 = c\<lparr>target := tgt\<rparr>;
                 (cancelled, c2', w') = runTarget env c2 w0;
                 h = \<lparr>runTargetName = tgt,
                      startDelay = dynamicDelay c2,
                      startExhausted = heap w0 (exhaustedKeys c2),
                      endDelay = dynamicDelay c2',
                      endExhausted = heap w' (exhaustedKeys c2')\<rparr>
             in if cancelled then (Some Canceled, w', [h])
                else
                  let (err, w'', hs) = domainsLoop env c lines w'
                  in (err, w'', h # hs))"

definition readDomainsFile ::
  "Env \<Rightarrow> Config \<Rightarrow> World \<Rightarrow> run_error option \<times> World \<times> targetRun list" where
  "readDomainsFile env c w =
     (case readLines w (domainsFile c) of
        (lines, True) \<Rightarrow>
          (Some (FileNotFound (''[!] Error, file not found: '' @ domainsFile c)), w, [])
      | (lines, False) \<Rightarrow> domainsLoop env c lines w)"

text \<open>
  Whether the pacing and quota state is carried from every target to the next one, as
  the specification has it (\<open>carriesOver\<close>), and whether the exhausted set is
  (\<open>exhaustedCarriesOver\<close>).
\<close>

fun carriesOver :: "targetRun list \<Rightarrow> bool" where
  "carriesOver (a # b # rest) =
     (startDelay b = endDelay a \<and> startExhausted b = endExhausted a \<and> carriesOver (b # rest))"
| "carriesOver rest = True"

fun exhaustedCarriesOver :: "targetRun list \<Rightarrow> bool" where
  "exhaustedCarriesOver (a # b # rest) =
     (startExhausted b = endExhausted a \<and> exhaustedCarriesOver (b # rest))"
| "exhaustedCarriesOver rest = True"

subsection \<open>Predicates of the properties\<close>


text \<open>
  Readings of the history: the pages started, the attempts made (page and key), and the
  keys that were answered with a quota error (an error message that contains
  \<^verbatim>\<open>quota\<close>, in any letter case).
\<close>

fun pageLog :: "event list \<Rightarrow> int list" where
  "pageLog [] = []"
| "pageLog (EvPage p # es) = p # pageLog es"
| "pageLog (e # es) = pageLog es"

fun attemptLog :: "event list \<Rightarrow> (int \<times> string) list" where
  "attemptLog [] = []"
| "attemptLog (EvAttempt p k # es) = (p, k) # attemptLog es"
| "attemptLog (e # es) = attemptLog es"

fun quotaResponse :: "http_result \<Rightarrow> bool" where
  "quotaResponse (HttpErr e) = False"
| "quotaResponse (HttpOk gr) = (case gr_Error gr of None \<Rightarrow> False | Some msg \<Rightarrow> isQuota msg)"

fun quotaKeys :: "event list \<Rightarrow> string set" where
  "quotaKeys [] = {}"
| "quotaKeys (EvRequest p u res # es) =
     (if quotaResponse res then insert (req_key u) (quotaKeys es) else quotaKeys es)"
| "quotaKeys (e # es) = quotaKeys es"


fun isRequestOf :: "int \<Rightarrow> string \<Rightarrow> event \<Rightarrow> bool" where
  "isRequestOf p k (EvRequest p' u res) = (p' = p \<and> req_key u = k)"
| "isRequestOf p k e = False"

fun isSleep :: "event \<Rightarrow> bool" where
  "isSleep (EvSleep d) = True"
| "isSleep e = False"

fun fetchWorld :: "fetch_result \<Rightarrow> World" where
  "fetchWorld (FetchReturn w) = w"
| "fetchWorld (FetchDone w combined respErr) = w"

text \<open>
  \<open>sameSetup c c'\<close>: \<open>c'\<close> differs from \<open>c\<close> at most in the fields that \<^verbatim>\<open>dorkRun\<close>
  assigns inside its loops.
\<close>

definition sameSetup :: "Config \<Rightarrow> Config \<Rightarrow> bool" where
  "sameSetup c c' \<longleftrightarrow>
     c' = c\<lparr>dynamicDelay := dynamicDelay c', requestStore := requestStore c',
            resultsFound := resultsFound c', requestCounter := requestCounter c',
            noResultCounter := noResultCounter c'\<rparr>"


text \<open>
  The links that the requests of page \<open>q\<close> in a history have yielded for the target
  \<open>tgt\<close>: for every answer without an error message, its items after the Link Filter.
\<close>

fun linksOn :: "string \<Rightarrow> int \<Rightarrow> event \<Rightarrow> string list" where
  "linksOn tgt q (EvRequest p u (HttpOk gr)) =
     (if p = q \<and> \<not> (gr_Error gr \<noteq> None \<and> the (gr_Error gr) \<noteq> [])
      then filterLinks (gr_Items gr) tgt else [])"
| "linksOn tgt q e = []"

definition yieldOn :: "string \<Rightarrow> int \<Rightarrow> event list \<Rightarrow> string list" where
  "yieldOn tgt q es = concat (map (linksOn tgt q) es)"

text \<open>The number of attempts made on page \<open>q\<close> in a history.\<close>

definition attemptsOn :: "int \<Rightarrow> event list \<Rightarrow> nat" where
  "attemptsOn q es = length (filter (\<lambda>a. fst a = q) (attemptLog es))"

text \<open>The events that a step from world \<open>w\<close> to world \<open>w'\<close> added to the history.\<close>

definition newEvents :: "World \<Rightarrow> World \<Rightarrow> event list" where
  "newEvents w w' = drop (length (events w)) (events w')"

subsection \<open>Concrete worlds and environments\<close>

text \<open>A world with no file, whose output files cannot be opened.\<close>

definition deniedWorld :: World where
  "deniedWorld =
     \<lparr>clock = 0, heap = (\<lambda>_. {}), files = Map.empty,
      openError = (\<lambda>_. Some ''permission denied''), stdout = [], stderr = [], events = []\<rparr>"

text \<open>A world with no file, in which every file can be opened.\<close>

definition emptyWorld :: World where
  "emptyWorld =
     \<lparr>clock = 0, heap = (\<lambda>_. {}), files = Map.empty, openError = (\<lambda>_. None),
      stdout = [], stderr = [], events = []\<rparr>"

text \<open>A configuration as \<^verbatim>\<open>main\<close> makes it, with two keys.\<close>

definition baseConfig :: Config where
  "baseConfig =
     \<lparr>target = ''example.com'', pages = 0, dork = [], exclusions = [], contents = [],
      delay = 0, dictionary = [], extension = [], outputPath = [], domainsFile = [],
      proxy = [], includeSubdomains = False, subdomainMode = False, verbose = False,
      excludeTargets = [], inFile = [], inUrl = [], apiKeys = [''KEY-A'', ''KEY-B''],
      exhaustedKeys = 0, dynamicDelay = 0.25, requestStore = [], resultsFound = False,
      requestCounter = 0, noResultCounter = 0\<rparr>"

text \<open>
  An environment without cancellation in which the clock always selects the first
  available key and every request fails in the transport.
\<close>

definition failingEnv :: Env where
  "failingEnv =
     \<lparr>ctxErr = (\<lambda>_. False), unixNano = (\<lambda>_. 0), httpGetJSON = (\<lambda>_ _. HttpErr ''timeout''),
      urlParseHost = (\<lambda>_. None)\<rparr>"


definition linkEnv :: Env where
  "linkEnv =
     \<lparr>ctxErr = (\<lambda>_. False), unixNano = (\<lambda>_. 0),
      httpGetJSON = (\<lambda>_ _. HttpOk \<lparr>gr_Items = [''http://example.com/a''], gr_Error = None\<rparr>),
      urlParseHost = (\<lambda>_. None)\<rparr>"

text \<open>
  The first key is over its quota and every other key is answered with one link
  (\<open>quotaEnv\<close>); the first request times out and every later one is answered with a
  quota error (\<open>timeoutThenQuotaEnv\<close>).
\<close>

definition quotaMessage :: http_result where
  "quotaMessage =
     HttpOk \<lparr>gr_Items = [], gr_Error = Some ''Quota exceeded for quota metric Queries''\<rparr>"

definition quotaEnv :: Env where
  "quotaEnv =
     \<lparr>ctxErr = (\<lambda>_. False), unixNano = (\<lambda>_. 0),
      httpGetJSON = (\<lambda>_ r. if req_key r = ''KEY-A'' then quotaMessage
                            else HttpOk \<lparr>gr_Items = [''http://example.com/a''], gr_Error = None\<rparr>),
      urlParseHost = (\<lambda>_. None)\<rparr>"


text \<open>
  Five links for every page, all different from page to page. In \<open>cancelEnv\<close> the context
  is cancelled after the second page: at the tenth reading of the environment, which is
  the check before the third page. In \<open>onePageEnv\<close> only the first page has links.
\<close>

definition pageLinks :: "string \<Rightarrow> string list" where
  "pageLinks p = map (\<lambda>x. ''http://example.com/'' @ p @ ''/'' @ [x]) ''abcde''"

definition pageAnswer :: "request \<Rightarrow> http_result" where
  "pageAnswer r =
     HttpOk \<lparr>gr_Items = (if req_start r = 1 then pageLinks ''1''
                          else if req_start r = 11 then pageLinks ''2''
                          else pageLinks ''n''),
             gr_Error = None\<rparr>"


definition onePageEnv :: Env where
  "onePageEnv =
     \<lparr>ctxErr = (\<lambda>_. False), unixNano = (\<lambda>_. 0),
      httpGetJSON = (\<lambda>_ r. if req_start r = 1 then pageAnswer r
                            else HttpOk \<lparr>gr_Items = [], gr_Error = None\<rparr>),
      urlParseHost = (\<lambda>_. None)\<rparr>"

text \<open>
  A run of five pages under \<open>onePageEnv\<close>: the state after the first page, and the attempt
  loop of the second page from there.
\<close>

definition afterFirstPage :: loop_result where
  "afterFirstPage = pageLoop onePageEnv [] 1 0 (baseConfig\<lparr>pages := 5\<rparr>) emptyWorld"

definition secondPageAttempts :: loop_result where
  "secondPageAttempts =
     attemptLoop onePageEnv [] 1 (length (apiKeys (loopConfig afterFirstPage))) 0
       (loopConfig afterFirstPage)
       ((tick (loopWorld afterFirstPage))\<lparr>events := events (loopWorld afterFirstPage) @ [EvPage 1]\<rparr>)"


text \<open>A domains file with two targets, searched with a custom query.\<close>

definition domainsWorld :: World where
  "domainsWorld =
     emptyWorld\<lparr>files := [''domains.txt'' \<mapsto> ''a.example'' @ [CHR 0x0A] @ ''b.example'' @ [CHR 0x0A]]\<rparr>"

definition domainsConfig :: Config where
  "domainsConfig = baseConfig\<lparr>domainsFile := ''domains.txt'', dork := ''inurl:admin'', pages := 1\<rparr>"

section \<open>Properties\<close>

declare writeParts.simps [simp del] splitAcc.simps [simp del] ReplaceAll.simps [simp del]

declare attemptLoop.simps [simp del] pageLoop.simps [simp del]

subsection \<open>\<^verbatim>\<open>uniqueStrings\<close> and the Link Filter\<close>

lemma set_uniqueLoop: "set (uniqueLoop seen xs) = set xs - seen - {[]}"
  by (induction xs arbitrary: seen) auto

lemma distinct_uniqueLoop: "distinct (uniqueLoop seen xs)"
  by (induction xs arbitrary: seen) (auto simp: set_uniqueLoop)

lemma set_uniqueStrings: "set (uniqueStrings xs) = set xs - {[]}"
  by (simp add: uniqueStrings_def set_uniqueLoop)

lemma distinct_uniqueStrings: "distinct (uniqueStrings xs)"
  by (simp add: uniqueStrings_def distinct_uniqueLoop)

lemma set_filterLoop:
  "set (filterLoop tgt items) =
     urlDecodeLikeSed ` {l \<in> set items. l \<noteq> [] \<and> Contains (ToLower l) (ToLower tgt)
                          \<and> \<not> googleHostFilter l}"
  by (induction items) auto

text \<open>
  Claim C2, as the code has it. The output of \<^const>\<open>filterLinks\<close> has no duplicate and no
  empty entry, and every entry is the decoded form (\<^const>\<open>urlDecodeLikeSed\<close>) of an input
  link that is not empty, contains the target case-insensitively and does not contain
  the marker \<^verbatim>\<open>google\<close> case-insensitively. Both tests are made on the link as
  received, before it is decoded, and the marker is looked for in the whole link.
\<close>

theorem filterLinks_sound:
  "distinct (filterLinks items tgt) \<and> [] \<notin> set (filterLinks items tgt) \<and>
   (\<forall>e \<in> set (filterLinks items tgt).
      \<exists>l \<in> set items. e = urlDecodeLikeSed l \<and> l \<noteq> [] \<and>
        Contains (ToLower l) (ToLower tgt) \<and> \<not> Contains (ToLower l) ''google'')"
  by (auto simp: filterLinks_def distinct_uniqueStrings set_uniqueStrings set_filterLoop
        googleHostFilter_def)

theorem filterLinks_sound_witness:
  "''http://example.com/a b'' \<in>
     set (filterLinks [''http://example.com/a%20b'', ''http://google.com/example.com'']
            ''Example.com'') \<and>
   (\<exists>l \<in> set [''http://example.com/a%20b'', ''http://google.com/example.com''].
      ''http://example.com/a b'' = urlDecodeLikeSed l \<and> l \<noteq> [] \<and>
      Contains (ToLower l) (ToLower ''Example.com'') \<and> \<not> Contains (ToLower l) ''google'')"
proof -
  have mem: "''http://example.com/a b'' \<in>
     set (filterLinks [''http://example.com/a%20b'', ''http://google.com/example.com'']
            ''Example.com'')"
    by code_simp
  with filterLinks_sound
         [of "[''http://example.com/a%20b'', ''http://google.com/example.com'']"
             "''Example.com''"]
  show ?thesis by blast
qed

text \<open>
  Claim C2 as stated fails on the decoded output. In the first link the escape
  \<^verbatim>\<open>%1e\<close> takes the first letter of the target, so the entry returned no longer
  contains \<^verbatim>\<open>example.com\<close>; in the second the escape \<^verbatim>\<open>%6F\<close> hides the marker from
  the test, and the entry returned has \<^verbatim>\<open>google\<close> in its host.
\<close>

theorem filterLinks_counterexample:
  "filterLinks [''http://x.org/?q=%1example.com'', ''http://g%6Fogle.example.com/'']
       ''example.com''
     = [''http://x.org/?q='' @ [CHR 0x1E] @ ''xample.com'', ''http://google.example.com/''] \<and>
   \<not> Contains (ToLower (''http://x.org/?q='' @ [CHR 0x1E] @ ''xample.com''))
         (ToLower ''example.com'') \<and>
   Contains (ToLower ''http://google.example.com/'') ''google''"
  by code_simp

subsection \<open>The Output Sink\<close>

lemma stdout_printLines: "stdout (printLines ls w) = stdout w @ ls"
  by (simp add: printLines_def)

lemma stdout_logErr: "stdout (logErr l w) = stdout w"
  by (simp add: logErr_def)

text \<open>
  Claim C10. With an output path set, when the file cannot be opened for appending,
  \<^const>\<open>outputOrPrintUnique\<close> prints the sorted unique lines of the result set to the
  standard output: each non-empty result exactly once. The file system is left as it
  was.
\<close>

theorem outputOrPrintUnique_fallback:
  assumes "path \<noteq> []" and "openError w path = Some err"
  shows "stdout (outputOrPrintUnique urls path w) = stdout w @ sort (uniqueStrings urls)
         \<and> set (sort (uniqueStrings urls)) = set urls - {[]}
         \<and> distinct (sort (uniqueStrings urls))
         \<and> files (outputOrPrintUnique urls path w) = files w"
  using assms
  by (simp add: outputOrPrintUnique_def Let_def stdout_printLines stdout_logErr
        set_uniqueStrings distinct_uniqueStrings printLines_def logErr_def)

theorem outputOrPrintUnique_fallback_witness:
  "''out.txt'' \<noteq> [] \<and> openError deniedWorld ''out.txt'' = Some ''permission denied'' \<and>
   stdout (outputOrPrintUnique [''b'', ''a'', ''b''] ''out.txt'' deniedWorld) = [''a'', ''b'']"
proof -
  have p: "''out.txt'' \<noteq> []" by simp
  have e: "openError deniedWorld ''out.txt'' = Some ''permission denied''"
    by (simp add: deniedWorld_def)
  have s: "stdout deniedWorld @ sort (uniqueStrings [''b'', ''a'', ''b'']) = [''a'', ''b'']"
    by code_simp
  from outputOrPrintUnique_fallback [OF p e, of "[''b'', ''a'', ''b'']"] p e s
  show ?thesis by simp
qed

text \<open>
  Claim C9 at a failing input. The result set holds one link that ends in a space, as
  the Link Filter returns it for a link that ends in \<^verbatim>\<open>%20\<close>. The first run writes
  the line; the second run reads it back through \<^const>\<open>readLines\<close>, which trims it, does
  not find the link among the lines read, and writes the same line again.
\<close>

theorem outputOrPrintUnique_twice:
  "filterLinks [''http://example.com/a%20''] ''example.com'' = [''http://example.com/a ''] \<and>
   files (outputOrPrintUnique [''http://example.com/a ''] ''out.txt'' emptyWorld) ''out.txt''
     = Some (''http://example.com/a '' @ [CHR 0x0A]) \<and>
   files (outputOrPrintUnique [''http://example.com/a ''] ''out.txt''
            (outputOrPrintUnique [''http://example.com/a ''] ''out.txt'' emptyWorld)) ''out.txt''
     = Some (''http://example.com/a '' @ [CHR 0x0A] @ ''http://example.com/a '' @ [CHR 0x0A])"
  by code_simp
subsection \<open>Exclusions and query clauses\<close>

lemma dropWhile_snoc_keeps:
  "\<not> P a \<Longrightarrow> \<exists>ys. dropWhile P (xs @ [a]) = ys @ [a]"
  by (induction xs) auto

lemma dropWhile_rev_fixed:
  assumes "u = [] \<or> \<not> P (hd u)"
  shows "dropWhile P (rev (dropWhile P (rev u))) = rev (dropWhile P (rev u))"
proof (cases u)
  case Nil
  then show ?thesis by simp
next
  case (Cons a u')
  with assms have na: "\<not> P a" by simp
  from dropWhile_snoc_keeps [of P a "rev u'"] na
  obtain ys where ys: "dropWhile P (rev u' @ [a]) = ys @ [a]" by auto
  have "rev (dropWhile P (rev u)) = a # rev ys"
    by (simp add: Cons ys)
  with na show ?thesis by simp
qed

lemma TrimSpace_idem: "TrimSpace (TrimSpace s) = TrimSpace s"
proof -
  have h: "dropWhile isSpace s = [] \<or> \<not> isSpace (hd (dropWhile isSpace s))"
    using hd_dropWhile [of isSpace s] by auto
  show ?thesis
    unfolding TrimSpace_def
    using dropWhile_rev_fixed [of "dropWhile isSpace s" isSpace, OF h]
    by (simp only: rev_rev_ident dropWhile_idem)
qed

lemma trimmedParts_eq: "trimmedParts xs = filter (\<lambda>e. e \<noteq> []) (map TrimSpace xs)"
  by (induction xs) (auto simp: Let_def)

lemma readLines_trimmed:
  "l \<in> set (fst (readLines w p)) \<Longrightarrow> l \<noteq> [] \<and> TrimSpace l = l"
  by (auto simp: readLines_def TrimSpace_idem split: option.splits prod.splits)

lemma trimmedParts_readLines: "trimmedParts (fst (readLines w p)) = fst (readLines w p)"
proof -
  have "\<forall>l \<in> set xs. l \<noteq> [] \<and> TrimSpace l = l \<Longrightarrow> trimmedParts xs = xs" for xs
    by (induction xs) (auto simp: Let_def)
  then show ?thesis using readLines_trimmed by blast
qed

lemma splitAcc_no_sep:
  "\<not> Contains s sep \<Longrightarrow> splitAcc sep acc s = [rev acc @ s]"
proof (induction sep acc s rule: splitAcc.induct)
  case (1 sep acc s)
  show ?case
  proof (cases "s = [] \<or> sep = []")
    case True
    then show ?thesis by (subst splitAcc.simps) simp
  next
    case False
    then obtain c cs where s: "s = c # cs" by (cases s) auto
    from "1.prems" s have np: "\<not> prefix sep s" and nc: "\<not> Contains cs sep" by auto
    from "1.IH"(2) [OF False np] nc s
    have "splitAcc sep (hd s # acc) (tl s) = [rev (hd s # acc) @ tl s]"
      by simp
    with False np s show ?thesis by (subst splitAcc.simps) simp
  qed
qed

lemma Split_no_sep: "\<not> Contains s sep \<Longrightarrow> Split s sep = [s]"
  by (simp add: Split_def splitAcc_no_sep)

lemma plus_minus_eta: "(@) ''+-'' = (\<lambda>e. CHR ''+'' # CHR ''-'' # e)"
  by (rule ext) simp

lemma writeParts_eq:
  "writeParts parts i b = b @ concat (map (\<lambda>e. ''+-'' @ e) (drop i parts))"
proof (induction parts i b rule: writeParts.induct)
  case (1 parts i b)
  show ?case
  proof (cases "i < length parts")
    case True
    then have "drop i parts = parts ! i # drop (Suc i) parts"
      by (simp add: Cons_nth_drop_Suc)
    with True "1.IH" show ?thesis by (subst writeParts.simps) (simp add: plus_minus_eta)
  next
    case False
    then show ?thesis by (subst writeParts.simps) simp
  qed
qed

lemma exclusionParts_eq:
  assumes "exclusionList w x = e # es"
  shows "exclusionParts w x = e # es"
proof (cases "fileExists w x")
  case True
  with assms have "fst (readLines w x) = e # es"
    by (simp add: exclusionList_def)
  moreover from True have "exclusionParts w x = trimmedParts (fst (readLines w x))"
    by (simp add: exclusionParts_def)
  ultimately show ?thesis
    using trimmedParts_readLines [of w x] by simp
next
  case False
  show ?thesis
  proof (cases "Contains x '',''")
    case True
    with False assms show ?thesis
      by (simp add: exclusionList_def exclusionParts_def trimmedParts_eq)
  next
    case nc: False
    with False assms show ?thesis
      by (simp add: exclusionList_def exclusionParts_def Split_no_sep split: if_splits)
  qed
qed

lemma buildExclusions_clause:
  "exclusionList w x = e # es \<Longrightarrow> buildExclusions w x m = exclusionClause (e # es)"
  by (simp add: buildExclusions_def exclusionParts_eq writeParts_eq exclusionClause_def Let_def)

lemma withExcl_suffix: "excludeTargets c \<noteq> [] \<Longrightarrow> suffix ('' '' @ excludeTargets c) (withExcl c q)"
  by (simp add: withExcl_def suffix_def)

lemma dictLoopSub_withExcl: "q \<in> set (dictLoopSub c ts) \<Longrightarrow> \<exists>q0. q = withExcl c q0"
  by (induction ts) (auto simp: Let_def dictBuildQ_def split: if_splits)

lemma dictLoop_withExcl: "q \<in> set (dictLoop c ts) \<Longrightarrow> \<exists>q0. q = withExcl c q0"
  by (induction ts) (auto simp: Let_def dictBuildQ_def split: if_splits)

lemma dictQueries_withExcl:
  assumes "q \<in> set (dictQueries c)"
  shows "\<exists>q0. q = withExcl c q0"
proof -
  have "\<exists>terms. dictQueries c =
          (if includeSubdomains c then dictLoopSub c terms else dictLoop c terms)"
    unfolding dictQueries_def Let_def by (rule exI) (rule refl)
  then obtain terms where
    "dictQueries c = (if includeSubdomains c then dictLoopSub c terms else dictLoop c terms)" ..
  with assms show ?thesis
    by (auto dest: dictLoopSub_withExcl dictLoop_withExcl split: if_splits)
qed

lemma dorkQueries_withExcl: "q \<in> set (dorkQueries c) \<Longrightarrow> \<exists>q0. q = withExcl c q0"
  by (auto simp: dorkQueries_def split: if_splits)

lemma extQueries_withExcl: "q \<in> set (extQueries c ext) \<Longrightarrow> \<exists>q0. q = withExcl c q0"
  by (auto simp: extQueries_def extBuildQ_def Let_def split: if_splits)

lemma contentsQueries_withExcl: "q \<in> set (contentsQueries c) \<Longrightarrow> \<exists>q0. q = withExcl c q0"
  by (auto simp: contentsQueries_def contentsBuildQ_def split: if_splits)

lemma buildQueries_withExcl: "q \<in> set (buildQueries c ext) \<Longrightarrow> \<exists>q0. q = withExcl c q0"
  unfolding buildQueries_def
  by (auto dest: dorkQueries_withExcl extQueries_withExcl dictQueries_withExcl
        contentsQueries_withExcl split: if_splits)

text \<open>
  Claim C8. When the exclusion list (from a file, or from a comma-separated string
  without its blank entries) is \<open>e # es\<close>, \<^const>\<open>buildExclusions\<close> returns
  \<^verbatim>\<open>-site:\<close>\<open>e\<close> followed by \<^verbatim>\<open>+-\<close>\<open>e'\<close> for each further entry \<open>e'\<close>, in the order of
  the list; and every query clause that \<^verbatim>\<open>dorkRun\<close> builds under this exclusion
  clause ends with a space and the clause.
\<close>

theorem buildExclusions_spec:
  assumes "exclusionList w x = e # es"
  shows "buildExclusions w x m = ''-site:'' @ e @ concat (map (\<lambda>e. ''+-'' @ e) es)
       \<and> (\<forall>q \<in> set (buildQueries (c\<lparr>excludeTargets := buildExclusions w x m\<rparr>) ext).
            suffix ('' '' @ ''-site:'' @ e @ concat (map (\<lambda>e. ''+-'' @ e) es)) q)"
proof -
  have cl: "buildExclusions w x m = ''-site:'' @ e @ concat (map (\<lambda>e. ''+-'' @ e) es)"
    using buildExclusions_clause [OF assms] by (simp add: exclusionClause_def)
  let ?c = "c\<lparr>excludeTargets := buildExclusions w x m\<rparr>"
  have ne: "excludeTargets ?c \<noteq> []" by (simp add: cl)
  have "suffix ('' '' @ buildExclusions w x m) q" if "q \<in> set (buildQueries ?c ext)" for q
    using buildQueries_withExcl [OF that] withExcl_suffix [OF ne] by auto
  with cl show ?thesis by simp
qed

theorem buildExclusions_spec_witness:
  "exclusionList emptyWorld ''a.com, b.com,,c.com '' = [''a.com'', ''b.com'', ''c.com''] \<and>
   buildExclusions emptyWorld ''a.com, b.com,,c.com '' False = ''-site:a.com+-b.com+-c.com'' \<and>
   ''site:example.com filetype:pdf -site:a.com+-b.com+-c.com''
     \<in> set (buildQueries (baseConfig\<lparr>excludeTargets :=
                 buildExclusions emptyWorld ''a.com, b.com,,c.com '' False\<rparr>) ''pdf'') \<and>
   suffix '' -site:a.com+-b.com+-c.com''
     ''site:example.com filetype:pdf -site:a.com+-b.com+-c.com''"
proof -
  have l: "exclusionList emptyWorld ''a.com, b.com,,c.com '' = ''a.com'' # [''b.com'', ''c.com'']"
    by code_simp
  have m: "''site:example.com filetype:pdf -site:a.com+-b.com+-c.com''
     \<in> set (buildQueries (baseConfig\<lparr>excludeTargets :=
                 buildExclusions emptyWorld ''a.com, b.com,,c.com '' False\<rparr>) ''pdf'')"
    by code_simp
  from buildExclusions_spec [OF l, of False baseConfig "''pdf''"] l m
  show ?thesis by auto
qed

subsection \<open>Invariants of the loops of \<^verbatim>\<open>dorkRun\<close>\<close>

lemma attempt_cases:
  "(\<exists>w'. attempt env ext page c w = AReturn c w')
   \<or> (\<exists>w4 cmb e. attempt env ext page c w = settle c w4 cmb e)"
  by (auto simp add: attempt_def Let_def split: prod.splits option.splits fetch_result.splits)






lemma settle_dyn_ARetry:
  "settle c w cmb e = ARetry c' w' \<Longrightarrow> dynamicDelay c' = dynamicDelay c"
  by (auto simp add: settle_def Let_def split: option.splits if_splits)

lemma settle_not_AReturn: "settle c w cmb e \<noteq> AReturn c' w'"
  by (simp add: settle_def Let_def split: option.splits)

lemma attemptLoop_invariant:
  assumes init: "P c w"
    and step: "\<And>c w. P c w \<Longrightarrow>
      P (attemptConfig (attempt env ext page c w)) (attemptWorld (attempt env ext page c w))"
  shows "P (loopConfig (attemptLoop env ext page maxTries triedKeys c w))
           (loopWorld (attemptLoop env ext page maxTries triedKeys c w))"
  using init step
proof (induction env ext page maxTries triedKeys c w rule: attemptLoop.induct)
  case (1 env ext page maxTries triedKeys c w)
  show ?case
  proof (cases "triedKeys < maxTries")
    case False
    with "1.prems"(1) show ?thesis by (subst (1 2) attemptLoop.simps) simp
  next
    case True
    note st = "1.prems"(2) [OF "1.prems"(1)]
    show ?thesis
    proof (cases "attempt env ext page c w")
      case (AReturn c' w')
      from st have "P c' w'" by (simp add: AReturn)
      with True AReturn show ?thesis by (subst (1 2) attemptLoop.simps) simp
    next
      case (ABreak c' w')
      from st have "P c' w'" by (simp add: ABreak)
      with True ABreak show ?thesis by (subst (1 2) attemptLoop.simps) simp
    next
      case (ARetry c' w')
      from st have "P c' w'" by (simp add: ARetry)
      from "1.IH"(1) [OF True ARetry this "1.prems"(2)] True ARetry show ?thesis
        by (subst (1 2) attemptLoop.simps) simp
    next
      case (AEmpty c' w')
      from st have "P c' w'" by (simp add: AEmpty)
      from "1.IH"(2) [OF True AEmpty this "1.prems"(2)] True AEmpty show ?thesis
        by (subst (1 2) attemptLoop.simps) simp
    qed
  qed
qed

lemma pageLoop_invariant:
  assumes init: "P c w"
    and step: "\<And>page c w. P c w \<Longrightarrow>
      P (attemptConfig (attempt env ext page c w)) (attemptWorld (attempt env ext page c w))"
    and tickP: "\<And>c w. P c w \<Longrightarrow> P c (tick w)"
    and pageP: "\<And>c w page. P c w \<Longrightarrow> P c ((tick w)\<lparr>events := events w @ [EvPage page]\<rparr>)"
    and resetP: "\<And>c w. P c w \<Longrightarrow> P (c\<lparr>resultsFound := False\<rparr>) w"
  shows "P (loopConfig (pageLoop env ext n page c w))
           (loopWorld (pageLoop env ext n page c w))"
  using init step
proof (induction env ext n page c w rule: pageLoop.induct)
  case (1 env ext n page c w)
  note Pcw = "1.prems"(1) and stp = "1.prems"(2)
  show ?case
  proof (cases "page < n \<and> \<not> ctxErr env (clock w)")
    case False
    with Pcw tickP [OF Pcw] show ?thesis
      by (subst (1 2) pageLoop.simps) auto
  next
    case True
    let ?w1 = "(tick w)\<lparr>events := events w @ [EvPage page]\<rparr>"
    let ?r = "attemptLoop env ext page (length (apiKeys c)) 0 c ?w1"
    have inner: "P (loopConfig ?r) (loopWorld ?r)"
      by (rule attemptLoop_invariant [where P = P, OF pageP [OF Pcw] stp])
    show ?thesis
    proof (cases ?r)
      case (LReturn c' w')
      from inner have "P c' w'" by (simp add: LReturn)
      with True LReturn show ?thesis by (subst (1 2) pageLoop.simps) simp
    next
      case (LNext c' w')
      from inner have Pc': "P c' w'" by (simp add: LNext)
      show ?thesis
      proof (cases "resultsFound c'")
        case False
        with Pc' True LNext show ?thesis by (subst (1 2) pageLoop.simps) simp
      next
        case rf: True
        from Pc' have "P (c'\<lparr>resultsFound := False\<rparr>) w'"
          by (rule resetP)
        from "1.IH" [OF _ _ LNext _ this stp] True rf
        have "P (loopConfig (pageLoop env ext n (page + 1) (c'\<lparr>resultsFound := False\<rparr>) w'))
                (loopWorld (pageLoop env ext n (page + 1) (c'\<lparr>resultsFound := False\<rparr>) w'))"
          by simp
        with True LNext rf show ?thesis by (subst (1 2) pageLoop.simps) simp
      qed
    qed
  qed
qed

lemma dorkRun_invariant:
  assumes init: "P c w"
    and step: "\<And>page c w. P c w \<Longrightarrow>
      P (attemptConfig (attempt env ext page c w)) (attemptWorld (attempt env ext page c w))"
    and tickP: "\<And>c w. P c w \<Longrightarrow> P c (tick w)"
    and pageP: "\<And>c w page. P c w \<Longrightarrow> P c ((tick w)\<lparr>events := events w @ [EvPage page]\<rparr>)"
    and resetP: "\<And>c w. P c w \<Longrightarrow> P (c\<lparr>resultsFound := False\<rparr>) w"
    and startP: "\<And>c w. P c w \<Longrightarrow>
        P (c\<lparr>requestStore := [], requestCounter := 0, noResultCounter := 0,
               resultsFound := False\<rparr>) w"
    and pagesP: "\<And>c w. P c w \<Longrightarrow> P (c\<lparr>pages := 10\<rparr>) w"
  shows "P (fst (snd (dorkRun env ext c w))) (snd (snd (dorkRun env ext c w)))"
proof -
  define c0 where "c0 = c\<lparr>requestStore := [], requestCounter := 0, noResultCounter := 0,
                 resultsFound := False\<rparr>"
  define c1 where "c1 = (if pages c0 = 0 then c0\<lparr>pages := 10\<rparr> else c0)"
  have "P c0 w" unfolding c0_def by (rule startP [OF init])
  then have "P c1 w" unfolding c1_def by (simp add: pagesP)
  then have "P (loopConfig (pageLoop env ext (pages c1) 0 c1 w))
               (loopWorld (pageLoop env ext (pages c1) 0 c1 w))"
    using step tickP pageP resetP by (rule pageLoop_invariant [where P = P])
  then show ?thesis
    unfolding dorkRun_def Let_def c0_def [symmetric] c1_def [symmetric]
    by (cases "pageLoop env ext (pages c1) 0 c1 w") auto
qed






subsection \<open>The history of one attempt\<close>

lemma tick_simps [simp]:
  "events (tick w) = events w" "heap (tick w) = heap w" "clock (tick w) = Suc (clock w)"
  "files (tick w) = files w" "stdout (tick w) = stdout w" "stderr (tick w) = stderr w"
  "openError (tick w) = openError w"
  by (simp_all add: tick_def)

lemma logErr_simps [simp]:
  "events (logErr l w) = events w" "heap (logErr l w) = heap w" "clock (logErr l w) = clock w"
  "files (logErr l w) = files w" "openError (logErr l w) = openError w"
  by (simp_all add: logErr_def)

lemma logv_simps [simp]:
  "events (logv v l w) = events w" "heap (logv v l w) = heap w" "clock (logv v l w) = clock w"
  "files (logv v l w) = files w" "openError (logv v l w) = openError w"
  by (simp_all add: logv_def)

lemma markExhausted_simps [simp]:
  "events (markExhausted c k w) = events w" "clock (markExhausted c k w) = clock w"
  "heap (markExhausted c k w) = (heap w)(exhaustedKeys c := insert k (heap w (exhaustedKeys c)))"
  "files (markExhausted c k w) = files w" "openError (markExhausted c k w) = openError w"
  by (simp_all add: markExhausted_def)

lemma delayControl_heap [simp]: "heap (delayControl c w) = heap w"
  and delayControl_clock [simp]: "clock (delayControl c w) = clock w"
  and delayControl_files [simp]: "files (delayControl c w) = files w"
  by (simp_all add: delayControl_def Let_def)

lemma delayControl_events:
  "\<exists>sl. events (delayControl c w) = events w @ sl \<and> list_all isSleep sl"
  by (simp add: delayControl_def Let_def)

lemma isQuota_nonempty: "isQuota msg \<Longrightarrow> msg \<noteq> []"
  by (auto simp: isQuota_def ToLower_def)


lemma fetchLoop_spec:
  assumes "\<forall>u \<in> set urls. req_key u = k"
  shows "\<exists>rs. events (fetchWorld (fetchLoop env c k page urls combined respErr w)) = events w @ rs
            \<and> list_all (isRequestOf page k) rs
            \<and> heap (fetchWorld (fetchLoop env c k page urls combined respErr w))
                = (heap w)(exhaustedKeys c := heap w (exhaustedKeys c) \<union> quotaKeys rs)
            \<and> (\<forall>w' cmb. fetchLoop env c k page urls combined respErr w = FetchDone w' cmb None
                   \<longrightarrow> respErr = None \<and> quotaKeys rs = {})"
  using assms
proof (induction urls arbitrary: combined respErr w)
  case Nil
  show ?case by (rule exI [of _ "[]"]) simp
next
  case (Cons u us)
  show ?case
  proof (cases "ctxErr env (clock w)")
    case True
    then show ?thesis by (intro exI [of _ "[]"]) simp
  next
    case False
    define res where "res = httpGetJSON env (Suc (clock w)) u"
    define w2 where "w2 = (tick (tick w))\<lparr>events := events w @ [EvRequest page u res]\<rparr>"
    define w3 where "w3 = (if quotaResponse res then markExhausted c k w2 else w2)"
    have ev3: "events w3 = events w @ [EvRequest page u res]"
      by (simp add: w3_def w2_def)
    have hp3: "heap w3 = (heap w)(exhaustedKeys c := heap w (exhaustedKeys c) \<union> quotaKeys [EvRequest page u res])"
      using Cons.prems by (auto simp: w3_def w2_def)
    have "\<exists>cmb e. fetchLoop env c k page (u # us) combined respErr w
             = fetchLoop env c k page us cmb e w3
           \<and> (e = None \<longrightarrow> respErr = None \<and> \<not> quotaResponse res)"
      using False
      by (cases res)
         (auto simp: Let_def res_def w2_def w3_def
               dest: isQuota_nonempty split: option.splits)
    then obtain cmb e where
      step: "fetchLoop env c k page (u # us) combined respErr w = fetchLoop env c k page us cmb e w3"
      and clean: "e = None \<longrightarrow> respErr = None \<and> \<not> quotaResponse res"
      by blast
    from Cons.prems have "\<forall>u\<in>set us. req_key u = k" by simp
    from Cons.IH [OF this, of cmb e w3]
    obtain rs where
      rs: "events (fetchWorld (fetchLoop env c k page us cmb e w3)) = events w3 @ rs"
          "list_all (isRequestOf page k) rs"
          "heap (fetchWorld (fetchLoop env c k page us cmb e w3))
             = (heap w3)(exhaustedKeys c := heap w3 (exhaustedKeys c) \<union> quotaKeys rs)"
          "\<forall>w' cmb'. fetchLoop env c k page us cmb e w3 = FetchDone w' cmb' None
                   \<longrightarrow> e = None \<and> quotaKeys rs = {}"
      by blast
    show ?thesis
    proof (intro exI [of _ "EvRequest page u res # rs"] conjI)
      show "events (fetchWorld (fetchLoop env c k page (u # us) combined respErr w))
              = events w @ EvRequest page u res # rs"
        by (simp only: step rs ev3) simp
      show "list_all (isRequestOf page k) (EvRequest page u res # rs)"
        using rs(2) Cons.prems by simp
      show "heap (fetchWorld (fetchLoop env c k page (u # us) combined respErr w))
              = (heap w)(exhaustedKeys c := heap w (exhaustedKeys c)
                   \<union> quotaKeys (EvRequest page u res # rs))"
        by (simp only: step rs(3) hp3) (auto simp: fun_eq_iff)
      show "\<forall>w' cmb'. fetchLoop env c k page (u # us) combined respErr w = FetchDone w' cmb' None
              \<longrightarrow> respErr = None \<and> quotaKeys (EvRequest page u res # rs) = {}"
        using rs(4) clean by (simp only: step) auto
    qed
  qed
qed


lemma getRandomApiKey_cases:
  "getRandomApiKey env c w = (None, w)
   \<or> (\<exists>k. getRandomApiKey env c w = (Some k, tick w) \<and> k \<in> set (apiKeys c)
            \<and> k \<notin> heap w (exhaustedKeys c))"
proof -
  define available where "available = filter (\<lambda>k. k \<notin> heap w (exhaustedKeys c)) (apiKeys c)"
  show ?thesis
  proof (cases "available = []")
    case True
    then show ?thesis by (simp add: getRandomApiKey_def available_def [symmetric])
  next
    case False
    then have "available ! (unixNano env (clock w) mod length available) \<in> set available"
      by simp
    then have "available ! (unixNano env (clock w) mod length available) \<in> set (apiKeys c)"
      and "available ! (unixNano env (clock w) mod length available) \<notin> heap w (exhaustedKeys c)"
      by (simp_all add: available_def)
    with False show ?thesis
      by (simp add: getRandomApiKey_def available_def [symmetric] Let_def)
  qed
qed

lemma settle_heap [simp]: "heap (attemptWorld (settle c w cmb e)) = heap w"
  by (simp add: settle_def Let_def split: option.splits)

lemma settle_events:
  "\<exists>sl. events (attemptWorld (settle c w cmb e)) = events w @ sl \<and> list_all isSleep sl"
proof (cases "uniqueStrings cmb = []")
  case False
  then show ?thesis by (simp add: settle_def Let_def)
next
  case True
  show ?thesis
  proof (cases e)
    case (Some msg)
    from delayControl_events [of c "logv (verbose c) (''Error: '' @ msg) w"]
    show ?thesis using True Some by (simp add: settle_def Let_def)
  next
    case None
    define c2 where "c2 = (if delay c = 0
        then c\<lparr>noResultCounter := noResultCounter c + 1,
               dynamicDelay := dynamicDelay c + 0.1\<rparr>
        else c\<lparr>noResultCounter := noResultCounter c + 1\<rparr>)"
    have eq: "attemptWorld (settle c w cmb e) = delayControl c2 (delayControl c w)"
      using True None by (simp add: settle_def Let_def c2_def)
    from delayControl_events [of c w] obtain s1 where
      s1: "events (delayControl c w) = events w @ s1" "list_all isSleep s1" by blast
    from delayControl_events [of c2 "delayControl c w"] obtain s2 where
      s2: "events (delayControl c2 (delayControl c w)) = events (delayControl c w) @ s2"
          "list_all isSleep s2" by blast
    show ?thesis
      by (rule exI [of _ "s1 @ s2"]) (simp add: eq s1 s2)
  qed
qed

lemma attempt_spec:
  "(\<exists>w'. attempt env ext page c w = AReturn c w' \<and> events w' = events w \<and> heap w' = heap w)
   \<or> (\<exists>k rs sl.
         events (attemptWorld (attempt env ext page c w)) = events w @ EvAttempt page k # rs @ sl
       \<and> k \<in> set (apiKeys c) \<and> k \<notin> heap w (exhaustedKeys c)
       \<and> list_all (isRequestOf page k) rs \<and> list_all isSleep sl
       \<and> heap (attemptWorld (attempt env ext page c w))
           = (heap w)(exhaustedKeys c := heap w (exhaustedKeys c) \<union> quotaKeys rs)
       \<and> (\<forall>c' w'. attempt env ext page c w = AEmpty c' w' \<longrightarrow> quotaKeys rs = {}))"
proof (cases "ctxErr env (clock w)")
  case True
  then show ?thesis by (simp add: attempt_def)
next
  case nc: False
  from getRandomApiKey_cases [of env c "tick w"]
  show ?thesis
  proof (elim disjE exE conjE)
    assume "getRandomApiKey env c (tick w) = (None, tick w)"
    with nc show ?thesis by (simp add: attempt_def)
  next
    fix k
    assume g: "getRandomApiKey env c (tick w) = (Some k, tick (tick w))"
      and k: "k \<in> set (apiKeys c)" "k \<notin> heap (tick w) (exhaustedKeys c)"
    show ?thesis
    proof (cases "k = []")
      case True
      with nc g show ?thesis by (simp add: attempt_def)
    next
      case kne: False
      define w3 where "w3 = logv (verbose c) (''Using API Key: '' @ k)
                         ((tick (tick w))\<lparr>events := events (tick (tick w)) @ [EvAttempt page k]\<rparr>)"
      define urls where "urls = map (buildOne k (page * 10 + 1)) (buildQueries c ext)"
      define fr where "fr = fetchLoop env c k page urls [] None w3"
      have ev3: "events w3 = events w @ [EvAttempt page k]" and hp3: "heap w3 = heap w"
        by (simp_all add: w3_def)
      have "\<forall>u \<in> set urls. req_key u = k"
        by (simp add: urls_def buildOne_def)
      from fetchLoop_spec [OF this, of env c page "[]" None w3]
      obtain rs where
        rs: "events (fetchWorld fr) = events w3 @ rs" "list_all (isRequestOf page k) rs"
            "heap (fetchWorld fr) = (heap w3)(exhaustedKeys c := heap w3 (exhaustedKeys c) \<union> quotaKeys rs)"
            "\<forall>w' cmb. fr = FetchDone w' cmb None \<longrightarrow> quotaKeys rs = {}"
        unfolding fr_def by blast
      have att: "attempt env ext page c w =
                  (case fr of FetchReturn w4 \<Rightarrow> AReturn c w4
                   | FetchDone w4 cmb e \<Rightarrow> settle c w4 cmb e)"
        using nc g kne by (simp add: attempt_def Let_def fr_def urls_def w3_def)
      show ?thesis
      proof (cases fr)
        case (FetchReturn w4)
        with att have "attemptWorld (attempt env ext page c w) = w4" by simp
        with rs(1-3) FetchReturn ev3 hp3 k att show ?thesis
          by (intro disjI2 exI [of _ k] exI [of _ rs] exI [of _ "[]"]) simp
      next
        case (FetchDone w4 cmb e)
        with att have a: "attempt env ext page c w = settle c w4 cmb e" by simp
        from settle_events [of c w4 cmb e] obtain sl where
          sl: "events (attemptWorld (settle c w4 cmb e)) = events w4 @ sl" "list_all isSleep sl"
          by blast
        have "quotaKeys rs = {}" if "settle c w4 cmb e = AEmpty c' w'" for c' w'
        proof -
          from that have "e = None"
            by (simp add: settle_def Let_def split: if_splits option.splits)
          with rs(4) FetchDone show ?thesis by simp
        qed
        with rs(1-3) FetchDone ev3 hp3 k sl show ?thesis
          by (intro disjI2 exI [of _ k] exI [of _ rs] exI [of _ sl]) (simp add: a)
      qed
    qed
  qed
qed

subsection \<open>Fields that the loops leave alone\<close>

lemma sameSetup_refl: "sameSetup c c"
  by (simp add: sameSetup_def)

lemma sameSetup_fields:
  assumes "sameSetup c c'"
  shows "apiKeys c' = apiKeys c" "exhaustedKeys c' = exhaustedKeys c" "delay c' = delay c"
    "pages c' = pages c" "target c' = target c" "outputPath c' = outputPath c"
    "verbose c' = verbose c"
proof -
  let ?d = "c\<lparr>dynamicDelay := dynamicDelay c', requestStore := requestStore c',
            resultsFound := resultsFound c', requestCounter := requestCounter c',
            noResultCounter := noResultCounter c'\<rparr>"
  from assms have eq: "c' = ?d" by (simp add: sameSetup_def)
  have "apiKeys c' = apiKeys ?d" by (rule arg_cong [OF eq])
  then show "apiKeys c' = apiKeys c" by simp
  have "exhaustedKeys c' = exhaustedKeys ?d" by (rule arg_cong [OF eq])
  then show "exhaustedKeys c' = exhaustedKeys c" by simp
  have "delay c' = delay ?d" by (rule arg_cong [OF eq])
  then show "delay c' = delay c" by simp
  have "pages c' = pages ?d" by (rule arg_cong [OF eq])
  then show "pages c' = pages c" by simp
  have "target c' = target ?d" by (rule arg_cong [OF eq])
  then show "target c' = target c" by simp
  have "outputPath c' = outputPath ?d" by (rule arg_cong [OF eq])
  then show "outputPath c' = outputPath c" by simp
  have "verbose c' = verbose ?d" by (rule arg_cong [OF eq])
  then show "verbose c' = verbose c" by simp
qed

lemma sameSetup_trans: "sameSetup a b \<Longrightarrow> sameSetup b c \<Longrightarrow> sameSetup a c"
  by (cases a, cases b, cases c) (simp add: sameSetup_def)

lemma settle_sameSetup: "sameSetup c (attemptConfig (settle c w cmb e))"
  by (simp add: settle_def Let_def sameSetup_def split: option.splits)

lemma attempt_sameSetup: "sameSetup c (attemptConfig (attempt env ext page c w))"
  using attempt_cases [of env ext page c w] settle_sameSetup [of c]
  by (auto simp: sameSetup_refl)

subsection \<open>Quota errors and the Exhausted Set\<close>





lemma quotaKeys_requests: "list_all (isRequestOf p k) rs \<Longrightarrow> quotaKeys rs \<subseteq> {k}"
proof (induction rs)
  case Nil
  show ?case by simp
next
  case (Cons e rs)
  then show ?case by (cases e) auto
qed


lemma dorkRun_sameSetup:
  "sameSetup (c\<lparr>pages := pages (fst (snd (dorkRun env ext c w)))\<rparr>) (fst (snd (dorkRun env ext c w)))"
proof -
  have "\<exists>n. sameSetup (c\<lparr>pages := n\<rparr>) (fst (snd (dorkRun env ext c w)))"
  proof (rule dorkRun_invariant [where P = "\<lambda>c' w'. \<exists>n. sameSetup (c\<lparr>pages := n\<rparr>) c'"])
    show "\<exists>n. sameSetup (c\<lparr>pages := n\<rparr>) c"
      by (rule exI [of _ "pages c"]) (simp add: sameSetup_def)
  next
    fix page :: int and c' :: Config and w' :: World
    assume "\<exists>n. sameSetup (c\<lparr>pages := n\<rparr>) c'"
    then show "\<exists>n. sameSetup (c\<lparr>pages := n\<rparr>) (attemptConfig (attempt env ext page c' w'))"
      using attempt_sameSetup sameSetup_trans by blast
  next
    fix c' :: Config and w' :: World
    assume "\<exists>n. sameSetup (c\<lparr>pages := n\<rparr>) c'"
    then obtain n where "sameSetup (c\<lparr>pages := n\<rparr>) c'" ..
    then have "sameSetup (c\<lparr>pages := 10\<rparr>) (c'\<lparr>pages := 10\<rparr>)"
      by (cases c, cases c') (simp add: sameSetup_def)
    then show "\<exists>n. sameSetup (c\<lparr>pages := n\<rparr>) (c'\<lparr>pages := 10\<rparr>)" ..
  next
    fix c' :: Config and w' :: World
    assume "\<exists>n. sameSetup (c\<lparr>pages := n\<rparr>) c'"
    then obtain n where "sameSetup (c\<lparr>pages := n\<rparr>) c'" ..
    then have "sameSetup (c\<lparr>pages := n\<rparr>) (c'\<lparr>resultsFound := False\<rparr>)"
      by (cases c, cases c') (simp add: sameSetup_def)
    then show "\<exists>n. sameSetup (c\<lparr>pages := n\<rparr>) (c'\<lparr>resultsFound := False\<rparr>)" ..
  next
    fix c' :: Config and w' :: World
    assume "\<exists>n. sameSetup (c\<lparr>pages := n\<rparr>) c'"
    then obtain n where "sameSetup (c\<lparr>pages := n\<rparr>) c'" ..
    then have "sameSetup (c\<lparr>pages := n\<rparr>) (c'\<lparr>requestStore := [], requestCounter := 0,
        noResultCounter := 0, resultsFound := False\<rparr>)"
      by (cases c, cases c') (simp add: sameSetup_def)
    then show "\<exists>n. sameSetup (c\<lparr>pages := n\<rparr>) (c'\<lparr>requestStore := [], requestCounter := 0,
        noResultCounter := 0, resultsFound := False\<rparr>)" ..
  qed simp_all
  then obtain n where n: "sameSetup (c\<lparr>pages := n\<rparr>) (fst (snd (dorkRun env ext c w)))" ..
  from sameSetup_fields(4) [OF n] have "pages (fst (snd (dorkRun env ext c w))) = n" by simp
  with n show ?thesis by simp
qed

lemma dorkRun_exhaustedKeys:
  "exhaustedKeys (fst (snd (dorkRun env ext c w))) = exhaustedKeys c"
  using sameSetup_fields(2) [OF dorkRun_sameSetup [where c = c and env = env and ext = ext and w = w]]
  by simp


subsection \<open>Pages and attempts in the history\<close>

lemma pageLog_append: "pageLog (xs @ ys) = pageLog xs @ pageLog ys"
  by (induction xs rule: pageLog.induct) auto

lemma attemptLog_append: "attemptLog (xs @ ys) = attemptLog xs @ attemptLog ys"
  by (induction xs rule: attemptLog.induct) auto

lemma logs_requests:
  "list_all (isRequestOf p k) rs \<Longrightarrow> pageLog rs = [] \<and> attemptLog rs = []"
proof (induction rs)
  case Nil
  show ?case by simp
next
  case (Cons e rs)
  then show ?case by (cases e) auto
qed

lemma logs_sleeps: "list_all isSleep sl \<Longrightarrow> pageLog sl = [] \<and> attemptLog sl = []"
proof (induction sl)
  case Nil
  show ?case by simp
next
  case (Cons e sl)
  then show ?case by (cases e) auto
qed

lemma attempt_logs:
  "\<exists>es. events (attemptWorld (attempt env ext page c w)) = events w @ es
      \<and> pageLog es = []
      \<and> (attemptLog es = [] \<or> (\<exists>k \<in> set (apiKeys c). attemptLog es = [(page, k)]))"
  using attempt_spec [of env ext page c w]
proof (elim disjE exE conjE)
  fix w'
  assume "attempt env ext page c w = AReturn c w'" "events w' = events w"
  then show ?thesis by (intro exI [of _ "[]"]) simp
next
  fix k rs sl
  assume ev: "events (attemptWorld (attempt env ext page c w)) = events w @ EvAttempt page k # rs @ sl"
    and k: "k \<in> set (apiKeys c)"
    and rs: "list_all (isRequestOf page k) rs" and sl: "list_all isSleep sl"
  show ?thesis
    using ev k logs_requests [OF rs] logs_sleeps [OF sl]
    by (intro exI [of _ "EvAttempt page k # rs @ sl"])
       (simp add: pageLog_append attemptLog_append)
qed

lemma attemptLoop_logs:
  "\<exists>es ks. events (loopWorld (attemptLoop env ext page maxTries triedKeys c w)) = events w @ es
      \<and> pageLog es = [] \<and> set ks \<subseteq> set (apiKeys c) \<and> length ks \<le> maxTries - triedKeys
      \<and> attemptLog es = map (Pair page) ks"
proof (induction env ext page maxTries triedKeys c w rule: attemptLoop.induct)
  case (1 env ext page maxTries triedKeys c w)
  show ?case
  proof (cases "triedKeys < maxTries")
    case False
    then show ?thesis
      by (subst attemptLoop.simps) (auto intro!: exI [of _ "[]"])
  next
    case True
    from attempt_logs [of env ext page c w] obtain es1 where
      es1: "events (attemptWorld (attempt env ext page c w)) = events w @ es1" "pageLog es1 = []"
        "attemptLog es1 = [] \<or> (\<exists>k \<in> set (apiKeys c). attemptLog es1 = [(page, k)])"
      by blast
    then obtain ks1 where ks1: "set ks1 \<subseteq> set (apiKeys c)" "length ks1 \<le> 1"
        "attemptLog es1 = map (Pair page) ks1"
    proof (elim disjE bexE)
      assume "attemptLog es1 = []"
      then show ?thesis by (intro that [of "[]"]) simp_all
    next
      fix k assume "k \<in> set (apiKeys c)" "attemptLog es1 = [(page, k)]"
      then show ?thesis by (intro that [of "[k]"]) simp_all
    qed
    have keys: "apiKeys (attemptConfig (attempt env ext page c w)) = apiKeys c"
      by (rule sameSetup_fields(1) [OF attempt_sameSetup])
    have stop: ?thesis
      if "attemptLoop env ext page maxTries triedKeys c w = r"
        and "loopWorld r = attemptWorld (attempt env ext page c w)" for r
      using that es1 ks1 True
      by (intro exI [of _ es1] exI [of _ ks1]) auto
    have goon: ?thesis
      if eq: "attemptLoop env ext page maxTries triedKeys c w
               = attemptLoop env ext page maxTries t' c' w'"
        and cw: "attempt env ext page c w \<in> {ARetry c' w', AEmpty c' w'}"
        and t': "triedKeys < t'"
        and ih: "\<exists>es ks. events (loopWorld (attemptLoop env ext page maxTries t' c' w')) = events w' @ es
            \<and> pageLog es = [] \<and> set ks \<subseteq> set (apiKeys c') \<and> length ks \<le> maxTries - t'
            \<and> attemptLog es = map (Pair page) ks"
      for t' c' w'
    proof -
      from cw have w': "attemptWorld (attempt env ext page c w) = w'"
        and c': "attemptConfig (attempt env ext page c w) = c'" by auto
      from ih obtain es2 ks2 where
        2: "events (loopWorld (attemptLoop env ext page maxTries t' c' w')) = events w' @ es2"
           "pageLog es2 = []" "set ks2 \<subseteq> set (apiKeys c')" "length ks2 \<le> maxTries - t'"
           "attemptLog es2 = map (Pair page) ks2"
        by blast
      from keys c' have k': "apiKeys c' = apiKeys c" by simp
      show ?thesis
        using es1 ks1 2 k' t' True w'
        by (intro exI [of _ "es1 @ es2"] exI [of _ "ks1 @ ks2"])
           (auto simp: eq pageLog_append attemptLog_append)
    qed
    show ?thesis
    proof (cases "attempt env ext page c w")
      case (AReturn c' w')
      with True show ?thesis by (intro stop [of "LReturn c' w'"]) (simp_all add: attemptLoop.simps [of env ext page maxTries triedKeys])
    next
      case (ABreak c' w')
      with True show ?thesis by (intro stop [of "LNext c' w'"]) (simp_all add: attemptLoop.simps [of env ext page maxTries triedKeys])
    next
      case (ARetry c' w')
      with True show ?thesis
        by (intro goon [of "Suc triedKeys" c' w'] "1.IH"(1) [OF True ARetry])
           (simp_all add: attemptLoop.simps [of env ext page maxTries triedKeys])
    next
      case (AEmpty c' w')
      with True show ?thesis
        by (intro goon [of maxTries c' w'] "1.IH"(2) [OF True AEmpty])
           (simp_all add: attemptLoop.simps [of env ext page maxTries triedKeys])
    qed
  qed
qed

lemma attemptLoop_sameSetup:
  "sameSetup c (loopConfig (attemptLoop env ext page maxTries triedKeys c w))"
proof (rule attemptLoop_invariant [where P = "\<lambda>c' w'. sameSetup c c'"])
  show "sameSetup c c" by (rule sameSetup_refl)
next
  fix c' :: Config and w' :: World
  assume "sameSetup c c'"
  then show "sameSetup c (attemptConfig (attempt env ext page c' w'))"
    using attempt_sameSetup sameSetup_trans by blast
qed

lemma attemptsOn_append: "attemptsOn q (xs @ ys) = attemptsOn q xs + attemptsOn q ys"
  by (simp add: attemptsOn_def attemptLog_append)

lemma attemptsOn_Nil [simp]: "attemptsOn q [] = 0"
  by (simp add: attemptsOn_def)

lemma attemptsOn_EvPage [simp]: "attemptsOn q (EvPage p # es) = attemptsOn q es"
  by (simp add: attemptsOn_def)

lemma map_page_upt_Suc:
  "map (\<lambda>i. page + int i) [0..<Suc m] = page # map (\<lambda>i. page + 1 + int i) [0..<m]"
  by (induction m) auto

lemma attemptsOn_same_page:
  "attemptLog es = map (Pair page) ks \<Longrightarrow> attemptsOn q es = (if q = page then length ks else 0)"
  by (simp add: attemptsOn_def)

lemma attemptsOn_later:
  "\<forall>a \<in> set (attemptLog es). page < fst a \<Longrightarrow> attemptsOn page es = 0"
  by (auto simp add: attemptsOn_def filter_empty_conv)

lemma pageLoop_logs:
  "\<exists>es m. events (loopWorld (pageLoop env ext n page c w)) = events w @ es
     \<and> pageLog es = map (\<lambda>i. page + int i) [0..<m] \<and> int m \<le> max 0 (n - page)
     \<and> (\<forall>q. attemptsOn q es \<le> length (apiKeys c))
     \<and> (\<forall>a \<in> set (attemptLog es). page \<le> fst a \<and> fst a < page + int m \<and> snd a \<in> set (apiKeys c))"
proof (induction env ext n page c w rule: pageLoop.induct)
  case (1 env ext n page c w)
  show ?case
  proof (cases "page < n \<and> \<not> ctxErr env (clock w)")
    case False
    then show ?thesis
      by (subst pageLoop.simps) (auto intro!: exI [of _ "[]"] exI [of _ "0::nat"])
  next
    case True
    let ?w1 = "(tick w)\<lparr>events := events w @ [EvPage page]\<rparr>"
    let ?r = "attemptLoop env ext page (length (apiKeys c)) 0 c ?w1"
    from attemptLoop_logs [of env ext page "length (apiKeys c)" 0 c ?w1]
    obtain es1 ks where
      es1: "events (loopWorld ?r) = events w @ EvPage page # es1" "pageLog es1 = []"
        "set ks \<subseteq> set (apiKeys c)" "length ks \<le> length (apiKeys c)"
        "attemptLog es1 = map (Pair page) ks"
      by auto
    have keys: "apiKeys (loopConfig ?r) = apiKeys c"
      by (rule sameSetup_fields(1) [OF attemptLoop_sameSetup])
    have stop: ?thesis if "loopWorld (pageLoop env ext n page c w) = loopWorld ?r"
      using that es1 True attemptsOn_same_page [OF es1(5)]
      by (intro exI [of _ "EvPage page # es1"] exI [of _ "1::nat"]) auto
    show ?thesis
    proof (cases ?r)
      case (LReturn c' w')
      with True show ?thesis by (intro stop) (simp add: pageLoop.simps [of env ext n page])
    next
      case (LNext c' w')
      show ?thesis
      proof (cases "resultsFound c'")
        case False
        with True LNext show ?thesis
          by (intro stop) (simp add: pageLoop.simps [of env ext n page])
      next
        case rf: True
        let ?c2 = "c'\<lparr>resultsFound := False\<rparr>"
        have eq: "pageLoop env ext n page c w = pageLoop env ext n (page + 1) ?c2 w'"
          using True LNext rf by (simp add: pageLoop.simps [of env ext n page])
        from keys LNext have k2: "apiKeys ?c2 = apiKeys c" by simp
        from "1.IH" [OF _ _ LNext _] True rf
        obtain es2 m2 where
          2: "events (loopWorld (pageLoop env ext n (page + 1) ?c2 w')) = events w' @ es2"
             "pageLog es2 = map (\<lambda>i. page + 1 + int i) [0..<m2]"
             "int m2 \<le> max 0 (n - (page + 1))"
             "\<forall>q. attemptsOn q es2 \<le> length (apiKeys ?c2)"
             "\<forall>a \<in> set (attemptLog es2). page + 1 \<le> fst a \<and> fst a < page + 1 + int m2 \<and> snd a \<in> set (apiKeys ?c2)"
          by auto
        from es1(1) LNext have ev1: "events w' = events w @ EvPage page # es1" by simp
        from 2(5) have later: "\<forall>a \<in> set (attemptLog es2). page < fst a" by auto
        have cnt: "attemptsOn q (EvPage page # es1 @ es2) \<le> length (apiKeys c)" for q
        proof (cases "q = page")
          case True
          then show ?thesis
            using attemptsOn_same_page [OF es1(5), of q] attemptsOn_later [OF later] es1(4)
            by (simp add: attemptsOn_append)
        next
          case False
          then show ?thesis
            using attemptsOn_same_page [OF es1(5), of q] 2(4) k2
            by (simp add: attemptsOn_append)
        qed
        show ?thesis
        proof (intro exI [of _ "EvPage page # es1 @ es2"] exI [of _ "Suc m2"] conjI allI ballI)
          show "events (loopWorld (pageLoop env ext n page c w)) = events w @ EvPage page # es1 @ es2"
            by (simp add: eq 2(1) ev1)
          show "pageLog (EvPage page # es1 @ es2) = map (\<lambda>i. page + int i) [0..<Suc m2]"
            by (simp only: map_page_upt_Suc) (simp add: pageLog_append es1(2) 2(2))
          show "int (Suc m2) \<le> max 0 (n - page)"
            using 2(3) True by auto
          show "attemptsOn q (EvPage page # es1 @ es2) \<le> length (apiKeys c)" for q
            by (rule cnt)
        next
          fix a assume "a \<in> set (attemptLog (EvPage page # es1 @ es2))"
          then have "a \<in> set (map (Pair page) ks) \<or> a \<in> set (attemptLog es2)"
            by (simp add: attemptLog_append es1(5))
          then show "page \<le> fst a" "fst a < page + int (Suc m2)" "snd a \<in> set (apiKeys c)"
            using es1(3) 2(5) k2 by auto
        qed
      qed
    qed
  qed
qed

lemma dorkRun_unfold:
  "\<exists>c1. sameSetup (c\<lparr>pages := (if pages c = 0 then 10 else pages c)\<rparr>) c1
      \<and> requestStore c1 = [] \<and> \<not> resultsFound c1
      \<and> dorkRun env ext c w =
           (requestStore (loopConfig (pageLoop env ext (pages c1) 0 c1 w)),
            loopConfig (pageLoop env ext (pages c1) 0 c1 w),
            loopWorld (pageLoop env ext (pages c1) 0 c1 w))"
proof -
  define c0 where "c0 = c\<lparr>requestStore := [], requestCounter := 0, noResultCounter := 0,
                 resultsFound := False\<rparr>"
  define c1 where "c1 = (if pages c0 = 0 then c0\<lparr>pages := 10\<rparr> else c0)"
  have 1: "sameSetup (c\<lparr>pages := (if pages c = 0 then 10 else pages c)\<rparr>) c1"
    by (cases c) (simp add: c1_def c0_def sameSetup_def)
  have 2: "requestStore c1 = []" "\<not> resultsFound c1"
    by (simp_all add: c1_def c0_def)
  have 3: "dorkRun env ext c w =
           (requestStore (loopConfig (pageLoop env ext (pages c1) 0 c1 w)),
            loopConfig (pageLoop env ext (pages c1) 0 c1 w),
            loopWorld (pageLoop env ext (pages c1) 0 c1 w))"
    unfolding dorkRun_def Let_def c0_def [symmetric] c1_def [symmetric]
    by (cases "pageLoop env ext (pages c1) 0 c1 w") auto
  from 1 2 3 show ?thesis by blast
qed

lemma newEvents_append: "events w' = events w @ es \<Longrightarrow> newEvents w w' = es"
  by (simp add: newEvents_def)

text \<open>
  Claim C1, as the code has it. A run of \<^const>\<open>dorkRun\<close> starts the pages
  \<open>0, 1, \<dots>, m - 1\<close> for some \<open>m\<close> that is at most the page count (10 when the
  configured count is 0), and on each page it makes at most as many attempts as the key
  list is long, each with a key of the list. Nothing keeps an attempt from taking the
  key of an earlier attempt on the same page.
\<close>

theorem dorkRun_pages_and_attempts:
  assumes "dorkRun env ext c w = (res, c', w')"
  shows "pageLog (newEvents w w') = map int [0..<length (pageLog (newEvents w w'))]
       \<and> int (length (pageLog (newEvents w w'))) \<le> max 0 (if pages c = 0 then 10 else pages c)
       \<and> (\<forall>q. attemptsOn q (newEvents w w') \<le> length (apiKeys c))
       \<and> (\<forall>a \<in> set (attemptLog (newEvents w w')).
             snd a \<in> set (apiKeys c) \<and> fst a \<in> set (pageLog (newEvents w w')))"
proof -
  from dorkRun_unfold [of c env ext w] obtain c1 where
    s: "sameSetup (c\<lparr>pages := (if pages c = 0 then 10 else pages c)\<rparr>) c1"
    and d: "dorkRun env ext c w =
           (requestStore (loopConfig (pageLoop env ext (pages c1) 0 c1 w)),
            loopConfig (pageLoop env ext (pages c1) 0 c1 w),
            loopWorld (pageLoop env ext (pages c1) 0 c1 w))"
    by blast
  from sameSetup_fields(1,4) [OF s]
  have k: "apiKeys c1 = apiKeys c" and n: "pages c1 = (if pages c = 0 then 10 else pages c)"
    by simp_all
  from d assms have w': "w' = loopWorld (pageLoop env ext (pages c1) 0 c1 w)" by simp
  from pageLoop_logs [of env ext "pages c1" 0 c1 w] obtain es m where
    es: "events w' = events w @ es" "pageLog es = map (\<lambda>i. 0 + int i) [0..<m]"
      "int m \<le> max 0 (pages c1 - 0)" "\<forall>q. attemptsOn q es \<le> length (apiKeys c1)"
      "\<forall>a \<in> set (attemptLog es). 0 \<le> fst a \<and> fst a < 0 + int m \<and> snd a \<in> set (apiKeys c1)"
    unfolding w' by blast
  have ne: "newEvents w w' = es" by (rule newEvents_append [OF es(1)])
  have pl: "pageLog es = map int [0..<m]" using es(2) by simp
  then have len: "length (pageLog es) = m" by simp
  have mem: "fst a \<in> set (pageLog es)" if "a \<in> set (attemptLog es)" for a
  proof -
    from es(5) that have "0 \<le> fst a" "fst a < int m" by auto
    then have "nat (fst a) < m" "int (nat (fst a)) = fst a" by auto
    then show ?thesis unfolding pl by (metis atLeast0LessThan imageI lessThan_iff set_map set_upt)
  qed
  show ?thesis
    unfolding ne len using pl es(3,4,5) k n mem by auto
qed

theorem dorkRun_pages_and_attempts_witness:
  "pageLog (newEvents emptyWorld (snd (snd (dorkRun linkEnv [] (baseConfig\<lparr>pages := 2\<rparr>) emptyWorld))))
     = [0, 1]
   \<and> attemptLog (newEvents emptyWorld (snd (snd (dorkRun linkEnv [] (baseConfig\<lparr>pages := 2\<rparr>) emptyWorld))))
     = [(0, ''KEY-A''), (1, ''KEY-A'')]
   \<and> attemptsOn 0 (newEvents emptyWorld (snd (snd (dorkRun linkEnv [] (baseConfig\<lparr>pages := 2\<rparr>) emptyWorld))))
     \<le> length (apiKeys (baseConfig\<lparr>pages := 2\<rparr>))
   \<and> int (length (pageLog (newEvents emptyWorld
         (snd (snd (dorkRun linkEnv [] (baseConfig\<lparr>pages := 2\<rparr>) emptyWorld))))))
     \<le> max 0 (if pages (baseConfig\<lparr>pages := 2\<rparr>) = 0 then 10 else pages (baseConfig\<lparr>pages := 2\<rparr>))"
proof -
  let ?r = "dorkRun linkEnv [] (baseConfig\<lparr>pages := 2\<rparr>) emptyWorld"
  have run: "?r = (fst ?r, fst (snd ?r), snd (snd ?r))" by simp
  have p: "pageLog (newEvents emptyWorld (snd (snd ?r))) = [0, 1]" by code_simp
  have a: "attemptLog (newEvents emptyWorld (snd (snd ?r))) = [(0, ''KEY-A''), (1, ''KEY-A'')]"
    by code_simp
  from dorkRun_pages_and_attempts [OF run] p a show ?thesis by blast
qed

text \<open>
  Claim C1 as stated fails. With two keys and a transport that times out, the clock
  selects the first key for both attempts of page 0: the same credential is tried twice
  on one page.
\<close>

theorem dorkRun_attempts_counterexample:
  "attemptLog (newEvents emptyWorld
       (snd (snd (dorkRun failingEnv [] (baseConfig\<lparr>pages := 1\<rparr>) emptyWorld))))
     = [(0, ''KEY-A''), (0, ''KEY-A'')]
   \<and> apiKeys (baseConfig\<lparr>pages := 1\<rparr>) = [''KEY-A'', ''KEY-B'']"
  by code_simp


lemma dorkRun_result:
  "fst (dorkRun env ext c w) = requestStore (fst (snd (dorkRun env ext c w)))"
  using dorkRun_unfold [of c env ext w] by auto





subsection \<open>Cancellation\<close>



lemma fetch_return_propagates:
  assumes "attempt env ext page c w = AReturn c' w'"
  shows "c' = c"
  using attempt_cases [of env ext page c w] assms settle_not_AReturn [of c]
  by (metis attempt_result.inject(1))



subsection \<open>Empty pages\<close>

lemma settle_ABreak_store:
  "settle c w cmb e = ABreak c' w' \<Longrightarrow>
     resultsFound c' \<and> uniqueStrings cmb \<noteq> [] \<and>
     requestStore c' = requestStore c @ uniqueStrings cmb"
  by (auto simp add: settle_def Let_def split: option.splits if_splits)

lemma settle_ARetry_config: "settle c w cmb e = ARetry c' w' \<Longrightarrow> c' = c"
  by (auto simp add: settle_def Let_def split: option.splits if_splits)

lemma settle_AEmpty_store:
  "settle c w cmb e = AEmpty c' w' \<Longrightarrow>
     requestStore c' = requestStore c \<and> resultsFound c' = resultsFound c"
  by (auto simp add: settle_def Let_def split: option.splits if_splits)

lemma attempt_store:
  "(case attempt env ext page c w of
      AReturn c' w' \<Rightarrow> c' = c
    | ABreak c' w' \<Rightarrow> resultsFound c' \<and>
        (\<exists>l. l \<noteq> [] \<and> distinct l \<and> requestStore c' = requestStore c @ l)
    | ARetry c' w' \<Rightarrow> c' = c
    | AEmpty c' w' \<Rightarrow> requestStore c' = requestStore c \<and> resultsFound c' = resultsFound c)"
proof (cases "attempt env ext page c w")
  case (AReturn c' w')
  then show ?thesis using fetch_return_propagates by simp
next
  case (ABreak c' w')
  with attempt_cases [of env ext page c w] obtain w4 cmb e where
    "settle c w4 cmb e = ABreak c' w'" by auto
  from settle_ABreak_store [OF this] ABreak show ?thesis
    using distinct_uniqueStrings by auto
next
  case (ARetry c' w')
  with attempt_cases [of env ext page c w] obtain w4 cmb e where
    "settle c w4 cmb e = ARetry c' w'" by auto
  from settle_ARetry_config [OF this] ARetry show ?thesis by simp
next
  case (AEmpty c' w')
  with attempt_cases [of env ext page c w] obtain w4 cmb e where
    "settle c w4 cmb e = AEmpty c' w'" by auto
  from settle_AEmpty_store [OF this] AEmpty show ?thesis by simp
qed

lemma attemptLoop_store:
  assumes "\<not> resultsFound c"
  shows "(case attemptLoop env ext page maxTries triedKeys c w of
      LReturn c' w' \<Rightarrow> requestStore c' = requestStore c \<and> \<not> resultsFound c'
    | LNext c' w' \<Rightarrow>
        (if resultsFound c'
         then \<exists>l. l \<noteq> [] \<and> distinct l \<and> requestStore c' = requestStore c @ l
         else requestStore c' = requestStore c))"
  using assms
proof (induction env ext page maxTries triedKeys c w rule: attemptLoop.induct)
  case (1 env ext page maxTries triedKeys c w)
  show ?case
  proof (cases "triedKeys < maxTries")
    case False
    with "1.prems" show ?thesis by (subst attemptLoop.simps) simp
  next
    case True
    note st = attempt_store [where env = env and ext = ext and page = page and c = c and w = w]
    show ?thesis
    proof (cases "attempt env ext page c w")
      case (AReturn c' w')
      with True st "1.prems" show ?thesis by (subst attemptLoop.simps) simp
    next
      case (ABreak c' w')
      with True st "1.prems" show ?thesis by (subst attemptLoop.simps) simp
    next
      case (ARetry c' w')
      with st have c': "c' = c" by simp
      with "1.prems" have nr: "\<not> resultsFound c'" by simp
      note ih = "1.IH"(1) [OF True ARetry nr]
      have eq: "attemptLoop env ext page maxTries triedKeys c w
              = attemptLoop env ext page maxTries (Suc triedKeys) c' w'"
        using True ARetry by (subst attemptLoop.simps) simp
      from c' ih show ?thesis unfolding eq by (auto split: loop_result.splits if_splits)
    next
      case (AEmpty c' w')
      with st have c': "requestStore c' = requestStore c" "resultsFound c' = resultsFound c"
        by simp_all
      with "1.prems" have nr: "\<not> resultsFound c'" by simp
      note ih = "1.IH"(2) [OF True AEmpty nr]
      have eq: "attemptLoop env ext page maxTries triedKeys c w
              = attemptLoop env ext page maxTries maxTries c' w'"
        using True AEmpty by (subst attemptLoop.simps) simp
      from c'(1) ih show ?thesis unfolding eq by (auto split: loop_result.splits if_splits)
    qed
  qed
qed

subsection \<open>Pages without links\<close>

lemma yieldOn_append: "yieldOn tgt q (xs @ ys) = yieldOn tgt q xs @ yieldOn tgt q ys"
  by (simp add: yieldOn_def)

lemma yieldOn_Nil [simp]: "yieldOn tgt q [] = []"
  by (simp add: yieldOn_def)

lemma yieldOn_sleeps: "list_all isSleep sl \<Longrightarrow> yieldOn tgt q sl = []"
proof (induction sl)
  case Nil
  show ?case by simp
next
  case (Cons e sl)
  then show ?case by (cases e) (auto simp: yieldOn_def)
qed

lemma yieldOn_other_page:
  "list_all (isRequestOf p k) rs \<Longrightarrow> q \<noteq> p \<Longrightarrow> yieldOn tgt q rs = []"
proof (induction rs)
  case Nil
  show ?case by simp
next
  case (Cons e rs)
  then show ?case
  proof (cases e)
    case (EvRequest p' u res)
    with Cons show ?thesis by (cases res) (auto simp: yieldOn_def)
  qed (auto simp: yieldOn_def)
qed

lemma fetchLoop_yield:
  "fetchLoop env c k page urls combined respErr w = FetchDone w' cmb e
   \<Longrightarrow> \<exists>rs. events w' = events w @ rs \<and> cmb = combined @ yieldOn (target c) page rs"
proof (induction urls arbitrary: combined respErr w)
  case Nil
  then show ?case by simp
next
  case (Cons u us)
  from Cons.prems have nc: "\<not> ctxErr env (clock w)"
    by (auto split: if_splits)
  define res where "res = httpGetJSON env (Suc (clock w)) u"
  define w2 where "w2 = (tick (tick w))\<lparr>events := events w @ [EvRequest page u res]\<rparr>"
  define w3 where "w3 = (if quotaResponse res then markExhausted c k w2 else w2)"
  have ev3: "events w3 = events w @ [EvRequest page u res]"
    by (simp add: w3_def w2_def)
  have "\<exists>cmb0 e0. fetchLoop env c k page (u # us) combined respErr w
             = fetchLoop env c k page us cmb0 e0 w3
           \<and> cmb0 = combined @ linksOn (target c) page (EvRequest page u res)"
    using nc
    by (cases res)
       (auto simp: Let_def res_def w2_def w3_def
             dest: isQuota_nonempty split: option.splits)
  then obtain cmb0 e0 where
    step: "fetchLoop env c k page (u # us) combined respErr w = fetchLoop env c k page us cmb0 e0 w3"
    and c0: "cmb0 = combined @ linksOn (target c) page (EvRequest page u res)"
    by blast
  from Cons.prems have rest: "fetchLoop env c k page us cmb0 e0 w3 = FetchDone w' cmb e"
    by (simp only: step)
  from Cons.IH [OF rest] obtain rs where
    rs: "events w' = events w3 @ rs" "cmb = cmb0 @ yieldOn (target c) page rs"
    by blast
  show ?case
  proof (intro exI [of _ "EvRequest page u res # rs"] conjI)
    show "events w' = events w @ EvRequest page u res # rs"
      by (simp add: rs(1) ev3)
    show "cmb = combined @ yieldOn (target c) page (EvRequest page u res # rs)"
      by (simp only: rs(2) c0) (simp add: yieldOn_def)
  qed
qed


lemma yieldOn_attempt [simp]: "yieldOn tgt q (EvAttempt p k # es) = yieldOn tgt q es"
  by (simp add: yieldOn_def)

lemma yieldOn_page [simp]: "yieldOn tgt q (EvPage p # es) = yieldOn tgt q es"
  by (simp add: yieldOn_def)

lemma attempt_break_yield:
  assumes "attempt env ext page c w = ABreak c' w'"
  shows "\<exists>k rs. events w' = events w @ EvAttempt page k # rs
            \<and> yieldOn (target c) page rs \<noteq> []"
proof -
  from assms have nc: "\<not> ctxErr env (clock w)"
    by (auto simp: attempt_def)
  from getRandomApiKey_cases [of env c "tick w"]
  show ?thesis
  proof (elim disjE exE conjE)
    assume "getRandomApiKey env c (tick w) = (None, tick w)"
    with nc assms show ?thesis by (simp add: attempt_def)
  next
    fix k
    assume g: "getRandomApiKey env c (tick w) = (Some k, tick (tick w))"
    show ?thesis
    proof (cases "k = []")
      case True
      with nc g assms show ?thesis by (simp add: attempt_def)
    next
      case kne: False
      define w3 where "w3 = logv (verbose c) (''Using API Key: '' @ k)
                         ((tick (tick w))\<lparr>events := events (tick (tick w)) @ [EvAttempt page k]\<rparr>)"
      define urls where "urls = map (buildOne k (page * 10 + 1)) (buildQueries c ext)"
      define fr where "fr = fetchLoop env c k page urls [] None w3"
      have ev3: "events w3 = events w @ [EvAttempt page k]"
        by (simp add: w3_def)
      have att: "attempt env ext page c w =
                  (case fr of FetchReturn w4 \<Rightarrow> AReturn c w4
                   | FetchDone w4 cmb e \<Rightarrow> settle c w4 cmb e)"
        using nc g kne by (simp add: attempt_def Let_def fr_def urls_def w3_def)
      show ?thesis
      proof (cases fr)
        case (FetchReturn w4)
        with att assms show ?thesis by simp
      next
        case (FetchDone w4 cmb e)
        with att assms have a: "settle c w4 cmb e = ABreak c' w'" by simp
        from settle_ABreak_store [OF a] have ne: "uniqueStrings cmb \<noteq> []" by simp
        then have cne: "cmb \<noteq> []" by (auto simp: uniqueStrings_def)
        from a ne have evs: "events w' = events w4"
          by (auto simp add: settle_def Let_def)
        from FetchDone have "fetchLoop env c k page urls [] None w3 = FetchDone w4 cmb e"
          by (simp add: fr_def)
        from fetchLoop_yield [OF this] obtain rs where
          rs: "events w4 = events w3 @ rs" "cmb = [] @ yieldOn (target c) page rs"
          by blast
        show ?thesis
          using rs cne evs ev3 by (intro exI [of _ k] exI [of _ rs]) simp
      qed
    qed
  qed
qed

lemma attempt_yield:
  "\<exists>es. events (attemptWorld (attempt env ext page c w)) = events w @ es
      \<and> pageLog es = []
      \<and> (\<forall>q. q \<noteq> page \<longrightarrow> yieldOn tgt q es = [])
      \<and> (resultsFound (attemptConfig (attempt env ext page c w))
           \<longrightarrow> resultsFound c \<or> yieldOn (target c) page es \<noteq> [])"
  using attempt_spec [of env ext page c w]
proof (elim disjE exE conjE)
  fix w'
  assume "attempt env ext page c w = AReturn c w'" "events w' = events w"
  then show ?thesis by (intro exI [of _ "[]"]) simp
next
  fix k rs sl
  assume ev: "events (attemptWorld (attempt env ext page c w)) = events w @ EvAttempt page k # rs @ sl"
    and rs: "list_all (isRequestOf page k) rs" and sl: "list_all isSleep sl"
  have other: "yieldOn tgt q (EvAttempt page k # rs @ sl) = []" if "q \<noteq> page" for q
    using yieldOn_other_page [OF rs that] yieldOn_sleeps [OF sl]
    by (simp add: yieldOn_append)
  have found: "resultsFound c \<or> yieldOn (target c) page (EvAttempt page k # rs @ sl) \<noteq> []"
    if rf: "resultsFound (attemptConfig (attempt env ext page c w))"
  proof (cases "attempt env ext page c w")
    case (AReturn c' w')
    with attempt_store [where env = env and ext = ext and page = page and c = c and w = w] rf show ?thesis by simp
  next
    case (ABreak c' w')
    from attempt_break_yield [OF this] obtain k' rs' where
      b: "events w' = events w @ EvAttempt page k' # rs'" "yieldOn (target c) page rs' \<noteq> []"
      by blast
    from ev ABreak b(1) have "EvAttempt page k # rs @ sl = EvAttempt page k' # rs'" by simp
    with b(2) show ?thesis by simp
  next
    case (ARetry c' w')
    with attempt_store [where env = env and ext = ext and page = page and c = c and w = w] rf show ?thesis by simp
  next
    case (AEmpty c' w')
    with attempt_store [where env = env and ext = ext and page = page and c = c and w = w] rf show ?thesis by simp
  qed
  show ?thesis
    using ev other found logs_requests [OF rs] logs_sleeps [OF sl]
    by (intro exI [of _ "EvAttempt page k # rs @ sl"])
       (simp add: pageLog_append)
qed


lemma attemptLoop_yield:
  "\<exists>es. events (loopWorld (attemptLoop env ext page maxTries triedKeys c w)) = events w @ es
      \<and> pageLog es = []
      \<and> (\<forall>q. q \<noteq> page \<longrightarrow> yieldOn tgt q es = [])
      \<and> (resultsFound (loopConfig (attemptLoop env ext page maxTries triedKeys c w))
           \<longrightarrow> resultsFound c \<or> yieldOn (target c) page es \<noteq> [])"
proof -
  define P where "P c' w' \<longleftrightarrow>
    (\<exists>es. events w' = events w @ es \<and> pageLog es = []
        \<and> (\<forall>q. q \<noteq> page \<longrightarrow> yieldOn tgt q es = [])
        \<and> target c' = target c
        \<and> (resultsFound c' \<longrightarrow> resultsFound c \<or> yieldOn (target c) page es \<noteq> []))"
    for c' :: Config and w' :: World
  have init: "P c w"
    unfolding P_def by (intro exI [of _ "[]"]) simp
  have step: "P (attemptConfig (attempt env ext page c1 w1)) (attemptWorld (attempt env ext page c1 w1))"
    if "P c1 w1" for c1 w1
  proof -
    from that obtain es1 where
      1: "events w1 = events w @ es1" "pageLog es1 = []"
         "\<forall>q. q \<noteq> page \<longrightarrow> yieldOn tgt q es1 = []" "target c1 = target c"
         "resultsFound c1 \<longrightarrow> resultsFound c \<or> yieldOn (target c) page es1 \<noteq> []"
      unfolding P_def by blast
    from attempt_yield [of env ext page c1 w1 tgt] obtain es2 where
      2: "events (attemptWorld (attempt env ext page c1 w1)) = events w1 @ es2" "pageLog es2 = []"
         "\<forall>q. q \<noteq> page \<longrightarrow> yieldOn tgt q es2 = []"
         "resultsFound (attemptConfig (attempt env ext page c1 w1))
            \<longrightarrow> resultsFound c1 \<or> yieldOn (target c1) page es2 \<noteq> []"
      by blast
    have tg: "target (attemptConfig (attempt env ext page c1 w1)) = target c"
      using sameSetup_fields(5) [OF attempt_sameSetup [of c1 env ext page w1]] 1(4) by simp
    show ?thesis
      unfolding P_def
      using 1 2 tg
      by (intro exI [of _ "es1 @ es2"]) (auto simp: pageLog_append yieldOn_append)
  qed
  from attemptLoop_invariant [of P c w env ext page maxTries triedKeys, OF init step]
  show ?thesis
    unfolding P_def by blast
qed


lemma pageLoop_zero_yield:
  assumes "\<not> resultsFound c"
  shows "\<exists>es. events (loopWorld (pageLoop env ext n page c w)) = events w @ es
      \<and> (\<forall>q \<in> set (pageLog es). yieldOn (target c) q es = [] \<longrightarrow> q = last (pageLog es))"
  using assms
proof (induction env ext n page c w rule: pageLoop.induct)
  case (1 env ext n page c w)
  show ?case
  proof (cases "page < n \<and> \<not> ctxErr env (clock w)")
    case False
    then show ?thesis
      by (subst pageLoop.simps) (auto intro!: exI [of _ "[]"])
  next
    case True
    let ?w1 = "(tick w)\<lparr>events := events w @ [EvPage page]\<rparr>"
    let ?r = "attemptLoop env ext page (length (apiKeys c)) 0 c ?w1"
    from attemptLoop_yield [of env ext page "length (apiKeys c)" 0 c ?w1 "target c"]
    obtain es1 where
      es1: "events (loopWorld ?r) = events w @ EvPage page # es1" "pageLog es1 = []"
        "\<forall>q. q \<noteq> page \<longrightarrow> yieldOn (target c) q es1 = []"
        "resultsFound (loopConfig ?r) \<longrightarrow> resultsFound c \<or> yieldOn (target c) page es1 \<noteq> []"
      by auto
    have tg: "target (loopConfig ?r) = target c"
      by (rule sameSetup_fields(5) [OF attemptLoop_sameSetup])
    have stop: ?thesis if "loopWorld (pageLoop env ext n page c w) = loopWorld ?r"
      using that es1
      by (intro exI [of _ "EvPage page # es1"]) (simp add: pageLog_append)
    show ?thesis
    proof (cases ?r)
      case (LReturn c' w')
      with True show ?thesis by (intro stop) (simp add: pageLoop.simps [of env ext n page])
    next
      case (LNext c' w')
      show ?thesis
      proof (cases "resultsFound c'")
        case False
        with True LNext show ?thesis
          by (intro stop) (simp add: pageLoop.simps [of env ext n page])
      next
        case rf: True
        let ?c2 = "c'\<lparr>resultsFound := False\<rparr>"
        have eq: "pageLoop env ext n page c w = pageLoop env ext n (page + 1) ?c2 w'"
          using True LNext rf by (simp add: pageLoop.simps [of env ext n page])
        from tg LNext have t2: "target ?c2 = target c" by simp
        from "1.IH" [OF _ _ LNext _] True rf
        obtain es2 where
          2: "events (loopWorld (pageLoop env ext n (page + 1) ?c2 w')) = events w' @ es2"
             "\<forall>q \<in> set (pageLog es2). yieldOn (target ?c2) q es2 = [] \<longrightarrow> q = last (pageLog es2)"
          by auto
        from es1(1) LNext have ev1: "events w' = events w @ EvPage page # es1" by simp
        from es1(4) LNext rf "1.prems" have here: "yieldOn (target c) page es1 \<noteq> []" by simp
        show ?thesis
        proof (intro exI [of _ "EvPage page # es1 @ es2"] conjI ballI impI)
          show "events (loopWorld (pageLoop env ext n page c w)) = events w @ EvPage page # es1 @ es2"
            by (simp add: eq 2(1) ev1)
        next
          fix q
          assume q: "q \<in> set (pageLog (EvPage page # es1 @ es2))"
            and y: "yieldOn (target c) q (EvPage page # es1 @ es2) = []"
          from y have y1: "yieldOn (target c) q es1 = []" and y2: "yieldOn (target c) q es2 = []"
            by (simp_all add: yieldOn_append)
          from y1 here have "q \<noteq> page" by auto
          with q have q2: "q \<in> set (pageLog es2)"
            by (simp add: pageLog_append es1(2))
          with 2(2) y2 t2 have "q = last (pageLog es2)" by simp
          moreover from q2 have "pageLog es2 \<noteq> []" by auto
          ultimately show "q = last (pageLog (EvPage page # es1 @ es2))"
            by (simp add: pageLog_append es1(2))
        qed
      qed
    qed
  qed
qed

lemma dorkRun_zero_yield:
  assumes "dorkRun env ext c w = (res, c', w')"
  shows "\<forall>q \<in> set (pageLog (newEvents w w')).
           yieldOn (target c) q (newEvents w w') = [] \<longrightarrow> q = last (pageLog (newEvents w w'))"
proof -
  from dorkRun_unfold [of c env ext w] obtain c1 where
    c1: "sameSetup (c\<lparr>pages := (if pages c = 0 then 10 else pages c)\<rparr>) c1"
        "\<not> resultsFound c1"
        "dorkRun env ext c w =
           (requestStore (loopConfig (pageLoop env ext (pages c1) 0 c1 w)),
            loopConfig (pageLoop env ext (pages c1) 0 c1 w),
            loopWorld (pageLoop env ext (pages c1) 0 c1 w))"
    by blast
  from sameSetup_fields(5) [OF c1(1)] have tg: "target c1 = target c" by simp
  from c1(3) assms have w': "w' = loopWorld (pageLoop env ext (pages c1) 0 c1 w)" by simp
  from pageLoop_zero_yield [OF c1(2), of env ext "pages c1" 0 w] obtain es where
    es: "events w' = events w @ es"
        "\<forall>q \<in> set (pageLog es). yieldOn (target c1) q es = [] \<longrightarrow> q = last (pageLog es)"
    unfolding w' by blast
  from es(1) have "newEvents w w' = es" by (simp add: newEvents_def)
  with es(2) tg show ?thesis by simp
qed

text \<open>
  Claim C6. In every run, a page whose requests have yielded no link for the target is
  the last page that the run has started, and the run returns the store. Page by page:
  let a page be started, and let its attempt loop end without a return in the
  configuration \<open>c'\<close>. Links were found on the page exactly when the store has grown
  (by a non-empty list without duplicates). When no attempt of the page found a link,
  the page loop ends there: no later page is started, and the run ends in \<open>c'\<close>, whose
  store is the store of the earlier pages.
\<close>

theorem empty_page_ends_run:
  assumes "page < n" and "\<not> ctxErr env (clock w)" and "\<not> resultsFound c"
    and "attemptLoop env ext page (length (apiKeys c)) 0 c
           ((tick w)\<lparr>events := events w @ [EvPage page]\<rparr>) = LNext c' w'"
  shows "(resultsFound c' \<longleftrightarrow> requestStore c' \<noteq> requestStore c)
       \<and> (requestStore c' = requestStore c \<longrightarrow>
            pageLoop env ext n page c w = LNext c' w'
          \<and> pageLog (newEvents w w') = [page])
       \<and> (\<forall>c0 w0. fst (dorkRun env ext c0 w0) = requestStore (fst (snd (dorkRun env ext c0 w0)))
            \<and> (\<forall>q \<in> set (pageLog (newEvents w0 (snd (snd (dorkRun env ext c0 w0))))).
                  yieldOn (target c0) q (newEvents w0 (snd (snd (dorkRun env ext c0 w0)))) = []
                  \<longrightarrow> q = last (pageLog (newEvents w0 (snd (snd (dorkRun env ext c0 w0)))))))"
proof -
  let ?w1 = "(tick w)\<lparr>events := events w @ [EvPage page]\<rparr>"
  from attemptLoop_store [OF assms(3), where env = env and ext = ext and page = page
      and maxTries = "length (apiKeys c)" and triedKeys = 0 and w = ?w1] assms(4)
  have st: "if resultsFound c'
         then \<exists>l. l \<noteq> [] \<and> distinct l \<and> requestStore c' = requestStore c @ l
         else requestStore c' = requestStore c"
    by simp
  then have iff: "resultsFound c' \<longleftrightarrow> requestStore c' \<noteq> requestStore c"
    by (auto split: if_splits)
  from attemptLoop_logs [of env ext page "length (apiKeys c)" 0 c ?w1] assms(4)
  obtain es where es: "events w' = events w @ EvPage page # es" "pageLog es = []"
    by auto
  have pl: "pageLog (newEvents w w') = [page]"
    using es by (simp add: newEvents_def)
  have stop: "pageLoop env ext n page c w = LNext c' w'" if "requestStore c' = requestStore c"
    using that iff assms by (subst pageLoop.simps) simp
  have res: "fst (dorkRun env ext c0 w0) = requestStore (fst (snd (dorkRun env ext c0 w0)))"
    for c0 w0 by (rule dorkRun_result)
  have run: "\<forall>q \<in> set (pageLog (newEvents w0 (snd (snd (dorkRun env ext c0 w0))))).
        yieldOn (target c0) q (newEvents w0 (snd (snd (dorkRun env ext c0 w0)))) = []
        \<longrightarrow> q = last (pageLog (newEvents w0 (snd (snd (dorkRun env ext c0 w0)))))"
    for c0 w0
    by (rule dorkRun_zero_yield [of env ext c0 w0 "fst (dorkRun env ext c0 w0)"
          "fst (snd (dorkRun env ext c0 w0))"]) simp
  from iff pl stop res run show ?thesis by blast
qed

theorem empty_page_ends_run_witness:
  "(1::int) < 5
   \<and> \<not> ctxErr onePageEnv (clock (loopWorld afterFirstPage))
   \<and> \<not> resultsFound (loopConfig afterFirstPage)
   \<and> secondPageAttempts = LNext (loopConfig secondPageAttempts) (loopWorld secondPageAttempts)
   \<and> requestStore (loopConfig secondPageAttempts) = requestStore (loopConfig afterFirstPage)
   \<and> requestStore (loopConfig afterFirstPage) = pageLinks ''1''
   \<and> pageLoop onePageEnv [] 5 1 (loopConfig afterFirstPage) (loopWorld afterFirstPage)
       = LNext (loopConfig secondPageAttempts) (loopWorld secondPageAttempts)
   \<and> pageLog (newEvents (loopWorld afterFirstPage) (loopWorld secondPageAttempts)) = [1]
   \<and> fst (dorkRun onePageEnv [] (baseConfig\<lparr>pages := 5\<rparr>) emptyWorld) = pageLinks ''1''
   \<and> pageLog (events (snd (snd (dorkRun onePageEnv [] (baseConfig\<lparr>pages := 5\<rparr>) emptyWorld))))
       = [0, 1]
   \<and> yieldOn ''example.com'' 0
        (newEvents emptyWorld (snd (snd (dorkRun onePageEnv [] (baseConfig\<lparr>pages := 5\<rparr>) emptyWorld))))
       = pageLinks ''1''
   \<and> yieldOn ''example.com'' 1
        (newEvents emptyWorld (snd (snd (dorkRun onePageEnv [] (baseConfig\<lparr>pages := 5\<rparr>) emptyWorld))))
       = []
   \<and> last (pageLog
        (newEvents emptyWorld (snd (snd (dorkRun onePageEnv [] (baseConfig\<lparr>pages := 5\<rparr>) emptyWorld)))))
       = 1"
proof -
  have n: "(1::int) < 5" by simp
  have cx: "\<not> ctxErr onePageEnv (clock (loopWorld afterFirstPage))" by code_simp
  have rf: "\<not> resultsFound (loopConfig afterFirstPage)" by code_simp
  have isNext: "case secondPageAttempts of LNext c' w' \<Rightarrow> True | LReturn c' w' \<Rightarrow> False"
    by code_simp
  have nx: "secondPageAttempts
      = LNext (loopConfig secondPageAttempts) (loopWorld secondPageAttempts)"
  proof (cases secondPageAttempts)
    case (LReturn c' w')
    have False using isNext unfolding LReturn by simp
    then show ?thesis ..
  next
    case (LNext c' w')
    show ?thesis unfolding LNext by simp
  qed
  from nx have at: "attemptLoop onePageEnv [] 1 (length (apiKeys (loopConfig afterFirstPage))) 0
       (loopConfig afterFirstPage)
       ((tick (loopWorld afterFirstPage))\<lparr>events := events (loopWorld afterFirstPage) @ [EvPage 1]\<rparr>)
     = LNext (loopConfig secondPageAttempts) (loopWorld secondPageAttempts)"
    by (simp add: secondPageAttempts_def [symmetric])
  have st: "requestStore (loopConfig secondPageAttempts) = requestStore (loopConfig afterFirstPage)"
    by code_simp
  have s1: "requestStore (loopConfig afterFirstPage) = pageLinks ''1''" by code_simp
  have rs: "fst (dorkRun onePageEnv [] (baseConfig\<lparr>pages := 5\<rparr>) emptyWorld) = pageLinks ''1''"
    by code_simp
  have pl: "pageLog (events (snd (snd (dorkRun onePageEnv [] (baseConfig\<lparr>pages := 5\<rparr>) emptyWorld))))
       = [0, 1]" by code_simp
  have tg: "target (baseConfig\<lparr>pages := 5\<rparr>) = ''example.com''"
    by (simp add: baseConfig_def)
  have y0: "yieldOn ''example.com'' 0
        (newEvents emptyWorld (snd (snd (dorkRun onePageEnv [] (baseConfig\<lparr>pages := 5\<rparr>) emptyWorld))))
       = pageLinks ''1''" by code_simp
  have y1: "yieldOn ''example.com'' 1
        (newEvents emptyWorld (snd (snd (dorkRun onePageEnv [] (baseConfig\<lparr>pages := 5\<rparr>) emptyWorld))))
       = []" by code_simp
  have in1: "1 \<in> set (pageLog
        (newEvents emptyWorld (snd (snd (dorkRun onePageEnv [] (baseConfig\<lparr>pages := 5\<rparr>) emptyWorld)))))"
    by code_simp
  note fact = empty_page_ends_run [OF n cx rf at]
  from fact st
  have a: "pageLoop onePageEnv [] 5 1 (loopConfig afterFirstPage) (loopWorld afterFirstPage)
       = LNext (loopConfig secondPageAttempts) (loopWorld secondPageAttempts)
     \<and> pageLog (newEvents (loopWorld afterFirstPage) (loopWorld secondPageAttempts)) = [1]"
    by blast
  from fact have "\<forall>q \<in> set (pageLog
        (newEvents emptyWorld (snd (snd (dorkRun onePageEnv [] (baseConfig\<lparr>pages := 5\<rparr>) emptyWorld))))).
      yieldOn (target (baseConfig\<lparr>pages := 5\<rparr>)) q
        (newEvents emptyWorld (snd (snd (dorkRun onePageEnv [] (baseConfig\<lparr>pages := 5\<rparr>) emptyWorld)))) = []
      \<longrightarrow> q = last (pageLog
        (newEvents emptyWorld (snd (snd (dorkRun onePageEnv [] (baseConfig\<lparr>pages := 5\<rparr>) emptyWorld)))))"
    by blast
  with in1 y1 tg
  have b: "last (pageLog
        (newEvents emptyWorld (snd (snd (dorkRun onePageEnv [] (baseConfig\<lparr>pages := 5\<rparr>) emptyWorld)))))
       = 1"
    by auto
  from n cx rf nx st s1 rs pl a y0 y1 b show ?thesis by blast
qed

subsection \<open>Runs over a domains file\<close>

lemma dorkRun_keeps_map:
  "dorkRun env ext c w = (res, c', w') \<Longrightarrow> exhaustedKeys c' = exhaustedKeys c"
  using dorkRun_exhaustedKeys [of env ext c w] by simp

lemma extLoop_keeps_map:
  "extLoop env exts all c w = (r, all', c', w') \<Longrightarrow> exhaustedKeys c' = exhaustedKeys c"
proof (induction exts arbitrary: all c w)
  case Nil
  then show ?case by simp
next
  case (Cons ext exts)
  show ?case
  proof (cases "ctxErr env (clock w)")
    case True
    with Cons.prems show ?thesis by simp
  next
    case False
    let ?w1 = "if verbose c then printLines [''Checking extension: '' @ ext] (tick w) else tick w"
    obtain res c1 w2 where d: "dorkRun env ext c ?w1 = (res, c1, w2)"
      by (cases "dorkRun env ext c ?w1") auto
    with False Cons.prems
    have "extLoop env exts (if length res > 0 then all @ res else all) c1 w2 = (r, all', c', w')"
      by (simp add: Let_def)
    from Cons.IH [OF this] dorkRun_keeps_map [OF d] show ?thesis by simp
  qed
qed

lemma extensionAttack_keeps_map:
  "extensionAttack env c w = (c', w') \<Longrightarrow> exhaustedKeys c' = exhaustedKeys c"
  unfolding extensionAttack_def Let_def
  supply extLoop.simps [simp del]
  by (auto split: prod.splits if_splits dest: extLoop_keeps_map)

lemma dictionaryAttack_keeps_map:
  "dictionaryAttack env c w = (c', w') \<Longrightarrow> exhaustedKeys c' = exhaustedKeys c"
  unfolding dictionaryAttack_def Let_def
  by (auto split: prod.splits if_splits dest: dorkRun_keeps_map)

lemma subdomainAttack_keeps_map:
  "subdomainAttack env c w = (c', w') \<Longrightarrow> exhaustedKeys c' = exhaustedKeys c"
  unfolding subdomainAttack_def Let_def
  by (auto split: prod.splits if_splits dest: dorkRun_keeps_map)

lemma contentsAttack_keeps_map:
  "contentsAttack env c w = (c', w') \<Longrightarrow> exhaustedKeys c' = exhaustedKeys c"
  unfolding contentsAttack_def Let_def
  by (auto split: prod.splits if_splits dest: dorkRun_keeps_map)

lemma runTarget_keeps_map:
  "runTarget env c w = (r, c', w') \<Longrightarrow> exhaustedKeys c' = exhaustedKeys c"
  unfolding runTarget_def Let_def
  by (auto split: prod.splits if_splits
      dest: dorkRun_keeps_map extensionAttack_keeps_map dictionaryAttack_keeps_map
        subdomainAttack_keeps_map contentsAttack_keeps_map)

lemma domainsLoop_history:
  "domainsLoop env c lines w = (err, w', hist) \<Longrightarrow>
     exhaustedCarriesOver hist
   \<and> (\<forall>h \<in> set hist. startDelay h = dynamicDelay c)
   \<and> (hist \<noteq> [] \<longrightarrow> startExhausted (hd hist) = heap w (exhaustedKeys c))"
proof (induction lines arbitrary: w err w' hist)
  case Nil
  then show ?case by simp
next
  case (Cons line lines)
  show ?case
  proof (cases "ctxErr env (clock w)")
    case True
    with Cons.prems show ?thesis by simp
  next
    case nc: False
    show ?thesis
    proof (cases "TrimSpace line = []")
      case True
      with nc Cons.prems have "domainsLoop env c lines (tick w) = (err, w', hist)"
        by (simp add: Let_def)
      from Cons.IH [OF this] show ?thesis by simp
    next
      case False
      let ?c2 = "c\<lparr>target := TrimSpace line\<rparr>"
      obtain cancelled c2' w1 where rt: "runTarget env ?c2 (tick w) = (cancelled, c2', w1)"
        by (cases "runTarget env ?c2 (tick w)") auto
      define h where "h = \<lparr>runTargetName = TrimSpace line,
                      startDelay = dynamicDelay ?c2,
                      startExhausted = heap (tick w) (exhaustedKeys ?c2),
                      endDelay = dynamicDelay c2',
                      endExhausted = heap w1 (exhaustedKeys c2')\<rparr>"
      have hs: "startDelay h = dynamicDelay c" "startExhausted h = heap w (exhaustedKeys c)"
        by (simp_all add: h_def)
      from runTarget_keeps_map [OF rt] have he: "endExhausted h = heap w1 (exhaustedKeys c)"
        by (simp add: h_def)
      show ?thesis
      proof (cases cancelled)
        case True
        with nc False rt Cons.prems have "hist = [h]"
          by (auto simp add: Let_def h_def)
        with hs show ?thesis by simp
      next
        case nca: False
        obtain err2 w2 hs2 where dl: "domainsLoop env c lines w1 = (err2, w2, hs2)"
          by (cases "domainsLoop env c lines w1") auto
        with nc False rt nca Cons.prems have hist: "hist = h # hs2"
          by (auto simp add: Let_def h_def)
        from Cons.IH [OF dl] have ih: "exhaustedCarriesOver hs2"
          "\<forall>h \<in> set hs2. startDelay h = dynamicDelay c"
          "hs2 \<noteq> [] \<longrightarrow> startExhausted (hd hs2) = heap w1 (exhaustedKeys c)"
          by simp_all
        have "exhaustedCarriesOver (h # hs2)"
          using ih(1,3) he by (cases hs2) simp_all
        with hist hs ih(2) show ?thesis by simp
      qed
    qed
  qed
qed

text \<open>
  Claim C3, as the code has it. Over a domains file, the exhausted set is carried from
  every target to the next one: the configuration of a target is a copy that refers to
  the same map. The adaptive delay is not: it is a field of the copy, and every target
  starts from the adaptive delay of the configuration that \<^const>\<open>readDomainsFile\<close> was
  called with.
\<close>

theorem domains_share_exhausted_only:
  assumes "readDomainsFile env c w = (err, w', hist)"
  shows "exhaustedCarriesOver hist
       \<and> (\<forall>h \<in> set hist. startDelay h = dynamicDelay c)
       \<and> (hist \<noteq> [] \<longrightarrow> startExhausted (hd hist) = heap w (exhaustedKeys c))"
proof (cases "snd (readLines w (domainsFile c))")
  case True
  with assms have "hist = []"
    by (auto simp: readDomainsFile_def split: prod.splits)
  then show ?thesis by simp
next
  case False
  with assms have "domainsLoop env c (fst (readLines w (domainsFile c))) w = (err, w', hist)"
    by (auto simp: readDomainsFile_def split: prod.splits)
  then show ?thesis by (rule domainsLoop_history)
qed

theorem domains_share_exhausted_only_witness:
  "map runTargetName (snd (snd (readDomainsFile quotaEnv domainsConfig domainsWorld)))
     = [''a.example'', ''b.example'']
   \<and> map startExhausted (snd (snd (readDomainsFile quotaEnv domainsConfig domainsWorld)))
     = [{}, {''KEY-A''}]
   \<and> map endExhausted (snd (snd (readDomainsFile quotaEnv domainsConfig domainsWorld)))
     = [{''KEY-A''}, {''KEY-A''}]
   \<and> map startDelay (snd (snd (readDomainsFile quotaEnv domainsConfig domainsWorld)))
     = [dynamicDelay domainsConfig, dynamicDelay domainsConfig]
   \<and> exhaustedCarriesOver (snd (snd (readDomainsFile quotaEnv domainsConfig domainsWorld)))"
proof -
  let ?r = "readDomainsFile quotaEnv domainsConfig domainsWorld"
  have run: "?r = (fst ?r, fst (snd ?r), snd (snd ?r))" by simp
  have 1: "map runTargetName (snd (snd ?r)) = [''a.example'', ''b.example'']" by code_simp
  have 2: "map startExhausted (snd (snd ?r)) = [{}, {''KEY-A''}]" by code_simp
  have 3: "map endExhausted (snd (snd ?r)) = [{''KEY-A''}, {''KEY-A''}]" by code_simp
  have 4: "map startDelay (snd (snd ?r)) = [dynamicDelay domainsConfig, dynamicDelay domainsConfig]"
    by code_simp
  from domains_share_exhausted_only [OF run]
  have "exhaustedCarriesOver (snd (snd ?r))" by blast
  with 1 2 3 4 show ?thesis by blast
qed

text \<open>
  Claim C3 as stated fails for the adaptive delay. The first target ends with the
  adaptive delay 0.35, after an empty page, and the second target starts with 0.25,
  the value of the run's configuration; the exhausted set is carried over.
\<close>

theorem domains_delay_counterexample:
  "map endDelay (snd (snd (readDomainsFile quotaEnv domainsConfig domainsWorld))) = [0.35, 0.35]
   \<and> map startDelay (snd (snd (readDomainsFile quotaEnv domainsConfig domainsWorld))) = [0.25, 0.25]
   \<and> \<not> carriesOver (snd (snd (readDomainsFile quotaEnv domainsConfig domainsWorld)))"
  by code_simp

end
